theory Spec2Isabelle
  imports
    Main
    "HOL-Library.Word"
    "HOL-Library.Multiset"
    "HOL-Library.Log_Nat"
    "HOL-Library.Char_ord"
    "HOL-Library.List_Lexorder"
begin

unbundle bit_operations_syntax

section \<open>The deployment manager: data model\<close>

text \<open>
  The development follows the SSH deployment manager (package \<open>impl\<close>, file
  \<open>manager.go\<close>): the routing algorithm \<open>routingAlgo\<close>, the helper \<open>nextPowerOfTwo\<close>,
  and the request handlers \<open>registerReplica\<close>, \<open>exportListener\<close>, \<open>startComponent\<close>,
  \<open>startColocationGroup\<close>, \<open>getRoutingInfo\<close> with the functions they call.

  The protobuf messages are declared outside the files at hand; the records below carry
  the fields the manager reads and writes. Strings are byte strings, ordered as Go orders
  them (bytewise, lexicographically).
\<close>

type_synonym u64 = "64 word"

text \<open>\<open>protos.Assignment_Slice\<close>: a start key and the replicas that own the slice.\<close>

record Assignment_Slice =
  Start :: u64
  Slice_Replicas :: "string list"

text \<open>\<open>protos.Assignment\<close>. The version is an unsigned 64-bit counter; \<open>Version++\<close> wraps.\<close>

record Assignment =
  App :: string
  DeploymentId :: string
  Component :: string
  Version :: u64
  Slices :: "Assignment_Slice list"

section \<open>The routing algorithm\<close>

subsection \<open>\<open>nextPowerOfTwo\<close>\<close>

text \<open>
  \<^verbatim>\<open>
  func nextPowerOfTwo(x int) int {
      if x&(x-1) == 0 { return x }
      return int(math.Pow(2, math.Ceil(math.Log2(float64(x)))))
  }
  \<close>
  The argument is the length of a slice of strings. \<open>math.Log2\<close>, \<open>math.Ceil\<close> and
  \<open>math.Pow\<close> are taken at their mathematical value: \<^const>\<open>ceillog2\<close> is
  \<open>\<lceil>log 2 x\<rceil>\<close> on the reals. The 64-bit floating point computation agrees with it for
  every length a slice can have in memory (the binary logarithm of a number below \<open>2^48\<close>
  that is not a power of two is further from an integer than the rounding error).
\<close>

definition nextPowerOfTwo :: "int \<Rightarrow> int" where
  "nextPowerOfTwo x = (if x AND (x - 1) = 0 then x else 2 ^ ceillog2 (nat x))"

subsection \<open>Bisection of the key space\<close>

definition minSliceKey :: u64 where
  "minSliceKey = 0"

definition maxSliceKey :: u64 where
  "maxSliceKey = 18446744073709551615"

text \<open>The number of binary digits of a natural number.\<close>

fun bit_length :: "nat \<Rightarrow> nat" where
  "bit_length n = (if n = 0 then 0 else Suc (bit_length (n div 2)))"

declare bit_length.simps [simp del]

text \<open>
  \<open>float64(d)\<close> for an unsigned 64-bit \<open>d\<close>: the nearest number with a 53-bit significand,
  ties to even. The result is an integer, at most \<open>2^64\<close>.
\<close>

definition float64_of_uint64 :: "u64 \<Rightarrow> nat" where
  "float64_of_uint64 d =
     (let n = unat d;
          e = bit_length n - 53;
          q = n div 2 ^ e;
          r = n mod 2 ^ e
      in if 2 ^ e < 2 * r \<or> (2 * r = 2 ^ e \<and> odd q) then (q + 1) * 2 ^ e else q * 2 ^ e)"

text \<open>
  \<^verbatim>\<open>midPoint := curr[0] + uint64(math.Floor(0.5*float64(curr[1]-curr[0])))\<close>
  Halving a floating point number is exact, the floor of half an integer \<open>f\<close> is
  \<open>f div 2\<close>, and the result is at most \<open>2^63\<close>, so the conversion back is exact. The
  subtraction and the addition are those of \<open>uint64\<close>.
\<close>

definition midPoint :: "u64 \<times> u64 \<Rightarrow> u64" where
  "midPoint cur = fst cur + of_nat (float64_of_uint64 (snd cur - fst cur) div 2)"

text \<open>
  \<^verbatim>\<open>
  for ok := true; ok; ok = len(splits) != numSlices {
      curr, splits = splits[0], splits[1:]
      midPoint := ...
      splits = append(splits, []uint64{curr[0], midPoint}, []uint64{midPoint, curr[1]})
  }
  \<close>
  The body runs once before the condition is first read. The loop does not return when
  the length has passed \<open>numSlices\<close>; indexing an empty \<open>splits\<close> panics. Both are
  \<open>None\<close>.
\<close>

partial_function (option) split_loop ::
  "(u64 \<times> u64) list \<Rightarrow> int \<Rightarrow> (u64 \<times> u64) list option" where
  "split_loop splits numSlices =
     (case splits of
        [] \<Rightarrow> None
      | cur # rest \<Rightarrow>
          (let splits' = rest @ [(fst cur, midPoint cur), (midPoint cur, snd cur)]
           in if int (length splits') \<noteq> numSlices then split_loop splits' numSlices
              else Some splits'))"

text \<open>
  \<^verbatim>\<open>
  rId := 0
  for i, s := range splits {
      slices[i] = &protos.Assignment_Slice{Start: s[0], Replicas: []string{candidates[rId]}}
      rId = (rId + 1) % len(candidates)
  }
  \<close>
  An index outside \<open>candidates\<close> panics: \<open>None\<close>.
\<close>

fun assign_round_robin ::
  "(u64 \<times> u64) list \<Rightarrow> string list \<Rightarrow> nat \<Rightarrow> Assignment_Slice list option" where
  "assign_round_robin [] candidates rId = Some []"
| "assign_round_robin (s # ss) candidates rId =
     (if rId < length candidates
      then map_option ((#) \<lparr>Start = fst s, Slice_Replicas = [candidates ! rId]\<rparr>)
             (assign_round_robin ss candidates ((rId + 1) mod length candidates))
      else None)"

subsection \<open>\<open>routingAlgo\<close>\<close>

text \<open>
  \<open>routingAlgo\<close> clones the current assignment, increments its version, sorts the
  candidates in place (\<open>sort.Strings\<close>), and fills in the slices. Its error result is
  always \<open>nil\<close> and the assignment it returns is never \<open>nil\<close>. The model returns the new
  assignment together with the caller's slice of candidates as the call leaves it
  (sorted), and \<open>None\<close> when the call does not return.

  \<open>sort.Slice\<close> with the comparison \<open>splits[i][0] <= splits[j][0]\<close> orders the splits by
  start key; the model is \<^term>\<open>sort_key fst\<close>.
\<close>

definition routingAlgo :: "Assignment \<Rightarrow> string list \<Rightarrow> (Assignment \<times> string list) option" where
  "routingAlgo currAssignment candidates0 =
     (let newAssignment = currAssignment\<lparr>Version := Version currAssignment + 1\<rparr>;
          candidates = sort candidates0
      in if length candidates = 0 then Some (newAssignment\<lparr>Slices := []\<rparr>, candidates)
         else if length candidates = 1
         then Some (newAssignment\<lparr>Slices := [\<lparr>Start = minSliceKey, Slice_Replicas = candidates\<rparr>]\<rparr>,
                    candidates)
         else
           (let numSlices = nextPowerOfTwo (int (length candidates))
            in case split_loop [(minSliceKey, maxSliceKey)] numSlices of
                 None \<Rightarrow> None
               | Some splits \<Rightarrow>
                   (case assign_round_robin (sort_key fst splits) candidates 0 of
                      None \<Rightarrow> None
                    | Some slices \<Rightarrow> Some (newAssignment\<lparr>Slices := slices\<rparr>, candidates))))"

subsection \<open>The keys of a slice\<close>

text \<open>
  A slice carries its start key only. Slice \<open>i\<close> of a list of slices owns the keys from
  its start key up to, and not including, the start key of the next slice; the last slice
  owns the keys up to the end of the key space, \<open>2^64\<close>.
\<close>

definition slice_end :: "Assignment_Slice list \<Rightarrow> nat \<Rightarrow> nat" where
  "slice_end slices i =
     (if Suc i < length slices then unat (Start (slices ! Suc i)) else 2 ^ 64)"

definition slice_keys :: "Assignment_Slice list \<Rightarrow> nat \<Rightarrow> u64 set" where
  "slice_keys slices i = {k. unat (Start (slices ! i)) \<le> unat k \<and> unat k < slice_end slices i}"

section \<open>The versioned store\<close>

text \<open>
  Modelled from the spec: the package \<open>versioned_map\<close> (\<open>NewMap\<close>, \<open>Map.Read\<close>,
  \<open>Map.Update\<close>) is not among the files. The specification gives its contract:
  every write stores the value and bumps the version of the key's record; a read returns
  the current value and its version at once when the version it is given is empty or
  differs from the current one, and otherwise waits until a newer version is written or
  the context is cancelled (a cancellation error); a key that was never written reads as
  a nil value without error.

  A version is a counter; \<open>0\<close> stands for the empty version string, which is also the
  version of a key that was never written. Values are stored and read by value: the
  comments in \<open>loadAppState\<close> and \<open>findOrAddGroup\<close> say that the store does not keep the
  object it was given (empty maps come back as nil maps).
\<close>

type_synonym version = nat

type_synonym 'a versioned_map = "string \<Rightarrow> 'a option \<times> version"

datatype error =
    ContextCancelled
  | ProxyListen string
  | BabysitterStart string string string

text \<open>
  What a call does: it does not return in the state at hand (a read that waits for a newer
  version, a loop that does not end, a panic), it returns an error, or it returns a value.
\<close>

datatype 'a outcome = NoReturn | Failed error | Returned 'a

definition NewMap :: "'a versioned_map" where
  "NewMap = (\<lambda>key. (None, 0))"

definition Map_Update :: "'a versioned_map \<Rightarrow> string \<Rightarrow> 'a \<Rightarrow> 'a versioned_map" where
  "Map_Update vm key val = vm(key := (Some val, Suc (snd (vm key))))"

definition Map_Read ::
  "'a versioned_map \<Rightarrow> bool \<Rightarrow> string \<Rightarrow> version \<Rightarrow> ('a option \<times> version) outcome" where
  "Map_Read vm cancelled key version =
     (if version = 0 \<or> version \<noteq> snd (vm key) then Returned (vm key)
      else if cancelled then Failed ContextCancelled
      else NoReturn)"

section \<open>The manager\<close>

text \<open>\<open>protos.RoutingInfo\<close>: the replicas of a group, its assignments, and a version.\<close>

record RoutingInfo =
  RI_Replicas :: "string list"
  RI_Assignments :: "Assignment list"
  RI_Version :: version

text \<open>
  \<open>ColocationGroupState\<close>. \<open>Assignments\<close> is a Go map from component names to
  assignments, kept here as an association list with one entry for a key.
\<close>

record ColocationGroupState =
  Name :: string
  Components :: "string \<rightharpoonup> bool"
  Replicas :: "string list"
  ReplicaPids :: "int list"
  Assignments :: "(string \<times> Assignment) list"

record Listener =
  Listener_Name :: string
  Listener_Addr :: string

record AppVersionState =
  State_App :: string
  State_DeploymentId :: string
  SubmissionTime :: nat
  Listeners :: "Listener list"
  Groups :: "string \<rightharpoonup> ColocationGroupState"

text \<open>\<open>proxyInfo\<close>, with the backends of its \<open>proxy.Proxy\<close> (\<open>AddBackend\<close> appends).\<close>

record proxyInfo =
  backends :: "string list"
  addr :: string

text \<open>
  The fields of \<open>manager\<close> that the handlers below use. \<open>ctx_done\<close> says whether \<open>m.ctx\<close>
  is cancelled, \<open>clock\<close> is what \<open>timestamppb.Now()\<close> reads, and \<open>launched\<close> records the
  calls of \<open>startBabysitter\<close> that were made (location, group, replica id), oldest first.
\<close>

record manager =
  ctx_done :: bool
  clock :: nat
  dep_App_Name :: string
  dep_Id :: string
  locations :: "string list"
  started :: "string \<rightharpoonup> bool"
  appState :: "AppVersionState versioned_map"
  routingState :: "RoutingInfo versioned_map"
  proxies :: "string \<rightharpoonup> proxyInfo"
  launched :: "(string \<times> string \<times> nat) list"

text \<open>The manager as \<open>RunManager\<close> builds it.\<close>

definition RunManager :: "string \<Rightarrow> string \<Rightarrow> string list \<Rightarrow> manager" where
  "RunManager app_name dep_id locs =
     \<lparr>ctx_done = False, clock = 0, dep_App_Name = app_name, dep_Id = dep_id,
      locations = locs, started = Map.empty, appState = NewMap, routingState = NewMap,
      proxies = Map.empty, launched = []\<rparr>"

definition routingInfoKey :: string where
  "routingInfoKey = ''routing_entries''"

definition appVersionStateKey :: string where
  "appVersionStateKey = ''app_version_state''"

text \<open>
  \<open>path.Join(routingInfoKey, group)\<close>: the two strings joined by a slash. (\<open>Join\<close> also
  cleans the path; the results below hold for any function from group names to keys.)
\<close>

definition routingKey :: "string \<Rightarrow> string" where
  "routingKey grp = routingInfoKey @ ''/'' @ grp"

definition empty_RoutingInfo :: RoutingInfo where
  "empty_RoutingInfo = \<lparr>RI_Replicas = [], RI_Assignments = [], RI_Version = 0\<rparr>"

text \<open>
  \<open>loadRoutingState\<close> returns a pointer, \<open>nil\<close> being \<open>None\<close>: a \<open>nil\<close> state read from
  the store is replaced by \<open>&protos.RoutingInfo{}\<close>.
\<close>

definition loadRoutingState ::
  "manager \<Rightarrow> string \<Rightarrow> version \<Rightarrow> (RoutingInfo option \<times> version) outcome" where
  "loadRoutingState m grp version =
     (case Map_Read (routingState m) (ctx_done m) (routingKey grp) version of
        NoReturn \<Rightarrow> NoReturn
      | Failed err \<Rightarrow> Failed err
      | Returned (state, newVersion) \<Rightarrow>
          Returned (Some (case state of None \<Rightarrow> empty_RoutingInfo | Some s \<Rightarrow> s), newVersion))"

record GetRoutingInfo =
  GRI_Group :: string
  GRI_Version :: version

definition getRoutingInfo :: "manager \<Rightarrow> GetRoutingInfo \<Rightarrow> RoutingInfo option outcome" where
  "getRoutingInfo m req =
     (case loadRoutingState m (GRI_Group req) (GRI_Version req) of
        NoReturn \<Rightarrow> NoReturn
      | Failed err \<Rightarrow> Failed err
      | Returned (existing, newVersion) \<Rightarrow>
          (let existing' = (case existing of None \<Rightarrow> empty_RoutingInfo | Some e \<Rightarrow> e)
           in Returned (Some (existing'\<lparr>RI_Version := newVersion\<rparr>))))"

definition loadAppState :: "manager \<Rightarrow> version \<Rightarrow> (AppVersionState \<times> version) outcome" where
  "loadAppState m version =
     (case Map_Read (appState m) (ctx_done m) appVersionStateKey version of
        NoReturn \<Rightarrow> NoReturn
      | Failed err \<Rightarrow> Failed err
      | Returned (state, newVersion) \<Rightarrow>
          Returned
            (case state of
               None \<Rightarrow> \<lparr>State_App = dep_App_Name m, State_DeploymentId = dep_Id m,
                        SubmissionTime = clock m, Listeners = [], Groups = Map.empty\<rparr>
             | Some s \<Rightarrow> s,
             newVersion))"

text \<open>
  \<open>findOrAddGroup\<close> returns a pointer into \<open>state.Groups\<close>, which it extends when the
  group is new. The model returns the group; the caller puts the group it has changed
  back under its key (\<open>store_group\<close>) before the state is written.
\<close>

definition findOrAddGroup :: "AppVersionState \<Rightarrow> string \<Rightarrow> ColocationGroupState" where
  "findOrAddGroup state grp =
     (case Groups state grp of
        None \<Rightarrow> \<lparr>Name = grp, Components = Map.empty, Replicas = [], ReplicaPids = [],
                 Assignments = []\<rparr>
      | Some g \<Rightarrow> g)"

definition store_group :: "AppVersionState \<Rightarrow> string \<Rightarrow> ColocationGroupState \<Rightarrow> AppVersionState" where
  "store_group state grp g = state\<lparr>Groups := (Groups state)(grp \<mapsto> g)\<rparr>"

text \<open>
  \<open>proto.Equal\<close> on two \<open>RoutingInfo\<close> pointers: both \<open>nil\<close>, or both messages with equal
  fields, repeated fields compared element by element in order, every field of an
  assignment included.
\<close>

definition gproto_Equal :: "RoutingInfo option \<Rightarrow> RoutingInfo option \<Rightarrow> bool" where
  "gproto_Equal x y = (x = y)"

definition updateRoutingInfo ::
  "manager \<Rightarrow> ColocationGroupState \<Rightarrow> RoutingInfo \<Rightarrow> manager \<times> unit outcome" where
  "updateRoutingInfo m g info =
     (case loadRoutingState m (Name g) 0 of
        NoReturn \<Rightarrow> (m, NoReturn)
      | Failed err \<Rightarrow> (m, Failed err)
      | Returned (state, _) \<Rightarrow>
          if gproto_Equal state (Some info) then (m, Returned ())
          else (m\<lparr>routingState := Map_Update (routingState m) (routingKey (Name g)) info\<rparr>,
                Returned ()))"

text \<open>
  The first loop of \<open>mayGenerateNewRoutingInfo\<close>: every assignment of the group is
  replaced by what \<open>routingAlgo\<close> returns for it and \<open>g.Replicas\<close>, which the first call
  leaves sorted. \<open>routingAlgo\<close> returns neither an error nor \<open>nil\<close>, so the \<open>continue\<close>
  of the loop is never taken. Each entry is updated on its own: the order of the visits
  does not matter.
\<close>

fun recompute_assignments ::
  "(string \<times> Assignment) list \<Rightarrow> string list \<Rightarrow> ((string \<times> Assignment) list \<times> string list) option" where
  "recompute_assignments [] replicas = Some ([], replicas)"
| "recompute_assignments ((component, currAssignment) # rest) replicas =
     (case routingAlgo currAssignment replicas of
        None \<Rightarrow> None
      | Some (newAssignment, replicas') \<Rightarrow>
          (case recompute_assignments rest replicas' of
             None \<Rightarrow> None
           | Some (rest', replicas'') \<Rightarrow> Some ((component, newAssignment) # rest', replicas'')))"

text \<open>
  \<open>mayGenerateNewRoutingInfo\<close> changes the group in place and may write the routing
  state: it returns the manager and the group. Go does not fix the order in which
  \<open>range\<close> visits a map: \<open>order\<close> is the list of component names in the order of the
  visits of the second loop, which builds \<open>routingInfo.Assignments\<close>.
\<close>

definition mayGenerateNewRoutingInfo ::
  "manager \<Rightarrow> string list \<Rightarrow> ColocationGroupState \<Rightarrow> manager \<times> ColocationGroupState outcome" where
  "mayGenerateNewRoutingInfo m order g =
     (case recompute_assignments (Assignments g) (Replicas g) of
        None \<Rightarrow> (m, NoReturn)
      | Some (assignments, replicas) \<Rightarrow>
          (let g' = g\<lparr>Assignments := assignments, Replicas := sort replicas\<rparr>;
               routingInfo = \<lparr>RI_Replicas = Replicas g',
                              RI_Assignments = List.map_filter (map_of (Assignments g')) order,
                              RI_Version = 0\<rparr>
           in case updateRoutingInfo m g' routingInfo of
                (m', NoReturn) \<Rightarrow> (m', NoReturn)
              | (m', Failed err) \<Rightarrow> (m', Failed err)
              | (m', Returned _) \<Rightarrow> (m', Returned g')))"

record ReplicaToRegister =
  Group :: string
  Address :: string
  Pid :: int

definition registerReplica ::
  "manager \<Rightarrow> string list \<Rightarrow> ReplicaToRegister \<Rightarrow> manager \<times> unit outcome" where
  "registerReplica m order req =
     (case loadAppState m 0 of
        NoReturn \<Rightarrow> (m, NoReturn)
      | Failed err \<Rightarrow> (m, Failed err)
      | Returned (state, _) \<Rightarrow>
          (let g = findOrAddGroup state (Group req);
               found = (Address req \<in> set (Replicas g));
               g1 = (if \<not> found
                     then g\<lparr>Replicas := Replicas g @ [Address req],
                            ReplicaPids := ReplicaPids g @ [Pid req]\<rparr>
                     else g)
           in case mayGenerateNewRoutingInfo m order g1 of
                (m', NoReturn) \<Rightarrow> (m', NoReturn)
              | (m', Failed err) \<Rightarrow> (m', Failed err)
              | (m', Returned g2) \<Rightarrow>
                  (m'\<lparr>appState := Map_Update (appState m') appVersionStateKey
                                    (store_group state (Group req) g2)\<rparr>,
                   Returned ())))"

text \<open>
  What \<open>net.Listen("tcp", req.LocalAddress)\<close> answers: a listener with its address, an
  error that is \<open>syscall.EADDRINUSE\<close>, or another error (each with its text).
\<close>

datatype listen_result = Listening string | AddrInUse string | ListenError string

record ExportListenerRequest =
  Listener :: Listener
  LocalAddress :: string

record ExportListenerReply =
  ProxyAddress :: string
  Error :: string

definition exportListener ::
  "manager \<Rightarrow> listen_result \<Rightarrow> ExportListenerRequest \<Rightarrow> manager \<times> ExportListenerReply outcome" where
  "exportListener m lis req =
     (case loadAppState m 0 of
        NoReturn \<Rightarrow> (m, NoReturn)
      | Failed err \<Rightarrow> (m, Failed err)
      | Returned (state, _) \<Rightarrow>
          (let state' = state\<lparr>Listeners := Listeners state @ [Listener req]\<rparr>;
               m1 = m\<lparr>appState := Map_Update (appState m) appVersionStateKey state'\<rparr>;
               name = Listener_Name (Listener req)
           in case proxies m1 name of
                Some p \<Rightarrow>
                  (m1\<lparr>proxies := (proxies m1)
                         (name \<mapsto> p\<lparr>backends := backends p @ [Listener_Addr (Listener req)]\<rparr>)\<rparr>,
                   Returned \<lparr>ProxyAddress = addr p, Error = []\<rparr>)
              | None \<Rightarrow>
                  (case lis of
                     AddrInUse err \<Rightarrow> (m1, Returned \<lparr>ProxyAddress = [], Error = err\<rparr>)
                   | ListenError err \<Rightarrow> (m1, Failed (ProxyListen err))
                   | Listening a \<Rightarrow>
                       (m1\<lparr>proxies := (proxies m1)
                              (name \<mapsto> \<lparr>backends = [Listener_Addr (Listener req)], addr = a\<rparr>)\<rparr>,
                        Returned \<lparr>ProxyAddress = a, Error = []\<rparr>))))"

text \<open>
  The loop of \<open>startColocationGroup\<close> over \<open>m.locations\<close>. \<open>startBabysitter\<close> runs
  \<open>ssh\<close>; what it returns for a location, a group and a replica id is given by \<open>sb\<close>
  (\<open>None\<close> is \<open>nil\<close>, otherwise the text of the error). The calls made are added to the
  record of launches.
\<close>

fun start_babysitters ::
  "(string \<Rightarrow> string \<Rightarrow> nat \<Rightarrow> string option) \<Rightarrow> string \<Rightarrow> string list \<Rightarrow> nat \<Rightarrow>
   (string \<times> string \<times> nat) list \<Rightarrow> (string \<times> string \<times> nat) list \<times> error option" where
  "start_babysitters sb grp [] replicaId calls = (calls, None)"
| "start_babysitters sb grp (loc # locs) replicaId calls =
     (case sb loc grp replicaId of
        Some err \<Rightarrow> (calls @ [(loc, grp, replicaId)], Some (BabysitterStart grp loc err))
      | None \<Rightarrow> start_babysitters sb grp locs (Suc replicaId) (calls @ [(loc, grp, replicaId)]))"

text \<open>\<open>startColocationGroup\<close>; of its argument \<open>group\<close> only the name is used.\<close>

definition startColocationGroup ::
  "manager \<Rightarrow> (string \<Rightarrow> string \<Rightarrow> nat \<Rightarrow> string option) \<Rightarrow> string \<Rightarrow> manager \<times> unit outcome" where
  "startColocationGroup m sb grp =
     (if started m grp \<noteq> None then (m, Returned ())
      else
        (case start_babysitters sb grp (locations m) 0 (launched m) of
           (calls, Some err) \<Rightarrow> (m\<lparr>launched := calls\<rparr>, Failed err)
         | (calls, None) \<Rightarrow>
             (m\<lparr>launched := calls, started := (started m)(grp \<mapsto> True)\<rparr>, Returned ())))"

record ComponentToStart =
  ColocationGroup :: string
  CTS_Component :: string
  IsRouted :: bool

definition startComponent ::
  "manager \<Rightarrow> string list \<Rightarrow> (string \<Rightarrow> string \<Rightarrow> nat \<Rightarrow> string option) \<Rightarrow> ComponentToStart \<Rightarrow>
   manager \<times> unit outcome" where
  "startComponent m order sb req =
     (case loadAppState m 0 of
        NoReturn \<Rightarrow> (m, NoReturn)
      | Failed err \<Rightarrow> (m, Failed err)
      | Returned (state, _) \<Rightarrow>
          (let g = findOrAddGroup state (ColocationGroup req);
               g1 = g\<lparr>Components := (Components g)(CTS_Component req \<mapsto> IsRouted req)\<rparr>;
               g2 = (if IsRouted req \<and> map_of (Assignments g1) (CTS_Component req) = None
                     then g1\<lparr>Assignments := Assignments g1 @
                             [(CTS_Component req,
                               \<lparr>App = dep_App_Name m, DeploymentId = dep_Id m,
                                Component = CTS_Component req, Version = 0, Slices = []\<rparr>)]\<rparr>
                     else g1)
           in case mayGenerateNewRoutingInfo m order g2 of
                (m', NoReturn) \<Rightarrow> (m', NoReturn)
              | (m', Failed err) \<Rightarrow> (m', Failed err)
              | (m', Returned g3) \<Rightarrow>
                  startColocationGroup
                    (m'\<lparr>appState := Map_Update (appState m') appVersionStateKey
                                     (store_group state (ColocationGroup req) g3)\<rparr>)
                    sb (ColocationGroup req)))"

section \<open>The stored state and the reachable states\<close>

text \<open>
  The state of a group as the store holds it, its replicas and their pids (empty for a
  group that is not in the store), and the routing information stored for a group (empty
  when none was written).
\<close>

definition group_state :: "manager \<Rightarrow> string \<Rightarrow> ColocationGroupState option" where
  "group_state m grp =
     (case fst (appState m appVersionStateKey) of
        None \<Rightarrow> None
      | Some state \<Rightarrow> Groups state grp)"

definition group_replicas :: "manager \<Rightarrow> string \<Rightarrow> string list" where
  "group_replicas m grp = (case group_state m grp of None \<Rightarrow> [] | Some g \<Rightarrow> Replicas g)"

definition group_pids :: "manager \<Rightarrow> string \<Rightarrow> int list" where
  "group_pids m grp = (case group_state m grp of None \<Rightarrow> [] | Some g \<Rightarrow> ReplicaPids g)"

definition stored_routing :: "manager \<Rightarrow> string \<Rightarrow> RoutingInfo" where
  "stored_routing m grp =
     (case fst (routingState m (routingKey grp)) of
        None \<Rightarrow> empty_RoutingInfo
      | Some info \<Rightarrow> info)"

text \<open>
  The states of the manager: the one \<open>RunManager\<close> builds, and those the handlers that
  write lead to, for any request and any answer of the environment; the context may be
  cancelled and the clock may change.
\<close>

inductive reachable :: "manager \<Rightarrow> bool" where
  start: "reachable (RunManager app_name dep_id locs)"
| register: "reachable m \<Longrightarrow> reachable (fst (registerReplica m order req))"
| component: "reachable m \<Longrightarrow> reachable (fst (startComponent m order sb creq))"
| colocation: "reachable m \<Longrightarrow> reachable (fst (startColocationGroup m sb grp))"
| listener: "reachable m \<Longrightarrow> reachable (fst (exportListener m lis lreq))"
| cancel: "reachable m \<Longrightarrow> reachable (m\<lparr>ctx_done := True\<rparr>)"
| tick: "reachable m \<Longrightarrow> reachable (m\<lparr>clock := t\<rparr>)"

section \<open>Scenarios\<close>

text \<open>
  An answer of \<open>startBabysitter\<close>: the launch fails at the location \<open>bad\<close> and succeeds
  everywhere else.
\<close>

definition fail_at :: "string \<Rightarrow> string \<Rightarrow> string \<Rightarrow> nat \<Rightarrow> string option" where
  "fail_at bad loc grp replicaId = (if loc = bad then Some ''exit status 255'' else None)"

text \<open>
  Two replicas of the group \<open>g\<close> register, \<open>b\<close> with pid 1 and then \<open>a\<close> with pid 2.
\<close>

definition registered_b_a :: manager where
  "registered_b_a =
     fst (registerReplica
            (fst (registerReplica (RunManager ''app'' ''d1'' []) []
                    \<lparr>Group = ''g'', Address = ''b'', Pid = 1\<rparr>))
            [] \<lparr>Group = ''g'', Address = ''a'', Pid = 2\<rparr>)"

text \<open>
  The routed component \<open>c\<close> is started in the group \<open>g\<close> (there are no locations, so no
  process is launched), and the replica \<open>a\<close> registers; then the same replica registers
  once more.
\<close>

definition routed_once :: manager where
  "routed_once =
     fst (registerReplica
            (fst (startComponent (RunManager ''app'' ''d1'' []) [''c''] (fail_at [])
                    \<lparr>ColocationGroup = ''g'', CTS_Component = ''c'', IsRouted = True\<rparr>))
            [''c''] \<lparr>Group = ''g'', Address = ''a'', Pid = 1\<rparr>)"

definition routed_twice :: manager where
  "routed_twice =
     fst (registerReplica routed_once [''c''] \<lparr>Group = ''g'', Address = ''a'', Pid = 1\<rparr>)"

section \<open>Evaluation lemmas\<close>

lemma bit_length_0 [simp]: "bit_length 0 = 0"
  by (simp add: bit_length.simps)

lemma bit_length_1 [simp]: "bit_length 1 = 1" "bit_length (Suc 0) = 1"
  by (simp_all add: bit_length.simps [of 1] bit_length.simps [of "Suc 0"])

lemma bit_length_Bit0 [simp]:
  "bit_length (numeral (Num.Bit0 k)) = Suc (bit_length (numeral k))"
  by (subst bit_length.simps) simp

lemma bit_length_Bit1 [simp]:
  "bit_length (numeral (Num.Bit1 k)) = Suc (bit_length (numeral k))"
  by (subst bit_length.simps) simp

lemma float64_of_max: "float64_of_uint64 maxSliceKey = 2 ^ 64"
  by (simp add: float64_of_uint64_def maxSliceKey_def)

lemma midPoint_full: "midPoint (minSliceKey, maxSliceKey) = 2 ^ 63"
  by (simp add: midPoint_def minSliceKey_def float64_of_max)

section \<open>Properties of \<open>nextPowerOfTwo\<close>\<close>

lemma pow2_of_and_zero:
  fixes x :: int
  assumes "0 < x" "x AND (x - 1) = 0"
  shows "\<exists>k. x = 2 ^ k"
  using assms
proof (induction "nat x" arbitrary: x rule: less_induct)
  case less
  show ?case
  proof (cases "x = 1")
    case True
    then have "x = 2 ^ 0" by simp
    then show ?thesis by blast
  next
    case False
    with less.prems have x2: "2 \<le> x" by simp
    show ?thesis
    proof (cases "even x")
      case True
      then obtain m where m: "x = 2 * m" by (auto elim: evenE)
      with x2 have mpos: "0 < m" by simp
      have d: "(2 * m - 1) div 2 = m - 1" by linarith
      have "x AND (x - 1) = 2 * (m AND (m - 1))"
        unfolding m
        by (subst and_int_rec) (simp add: d)
      with less.prems have "m AND (m - 1) = 0" by simp
      moreover have "nat m < nat x" using m mpos by simp
      ultimately obtain k where "m = 2 ^ k" using less.hyps mpos by blast
      then have "x = 2 ^ Suc k" using m by simp
      then show ?thesis by blast
    next
      case False
      then obtain m where m: "x = 2 * m + 1" by (auto elim: oddE)
      with x2 have mpos: "0 < m" by simp
      have "x AND (x - 1) = 2 * (m AND m)"
        unfolding m by (subst and_int_rec) simp
      with less.prems mpos show ?thesis by simp
    qed
  qed
qed


lemma nextPowerOfTwo_least:
  assumes "1 \<le> x"
  shows "\<exists>k. nextPowerOfTwo x = 2 ^ k \<and> x \<le> 2 ^ k \<and> (\<forall>j. x \<le> 2 ^ j \<longrightarrow> k \<le> j)"
proof (cases "x AND (x - 1) = 0")
  case True
  with assms obtain k where k: "x = 2 ^ k"
    using pow2_of_and_zero [of x] by auto
  have "\<forall>j. x \<le> 2 ^ j \<longrightarrow> k \<le> j"
    unfolding k by simp
  with True k show ?thesis
    by (auto simp: nextPowerOfTwo_def)
next
  case False
  let ?n = "nat x"
  have n: "0 < ?n" "x = int ?n" using assms by simp_all
  have le: "?n \<le> 2 ^ ceillog2 ?n"
    by (rule le_two_power_ceillog2)
  have "x \<le> 2 ^ ceillog2 ?n"
    using le n by (metis of_nat_le_iff of_nat_numeral of_nat_power)
  moreover have "\<forall>j. x \<le> 2 ^ j \<longrightarrow> ceillog2 ?n \<le> j"
  proof (intro allI impI)
    fix j assume "x \<le> 2 ^ j"
    then have "?n \<le> 2 ^ j"
      using n by (metis of_nat_le_iff of_nat_numeral of_nat_power)
    then show "ceillog2 ?n \<le> j"
      using ceillog2_le_iff [OF n(1)] by simp
  qed
  ultimately show ?thesis
    using False by (auto simp: nextPowerOfTwo_def)
qed

lemma nextPowerOfTwo_ge: "1 \<le> x \<Longrightarrow> x \<le> nextPowerOfTwo x"
  using nextPowerOfTwo_least [of x] by auto

lemma nextPowerOfTwo_3: "nextPowerOfTwo 3 = 4"
proof -
  have "ceillog2 3 = 2" by (rule ceillog2_eqI) simp_all
  then show ?thesis by (simp add: nextPowerOfTwo_def)
qed

section \<open>The loops of \<open>routingAlgo\<close> return\<close>

lemma split_loop_returns:
  assumes "splits \<noteq> []" "int (length splits) < n"
  shows "\<exists>r. split_loop splits n = Some r \<and> int (length r) = n \<and> fst ` set splits \<subseteq> fst ` set r"
  using assms
proof (induction "nat n - length splits" arbitrary: splits rule: less_induct)
  case less
  from less.prems(1) obtain cur rest where sp: "splits = cur # rest"
    by (cases splits) auto
  define splits' where "splits' = rest @ [(fst cur, midPoint cur), (midPoint cur, snd cur)]"
  have len: "length splits' = Suc (length splits)"
    by (simp add: splits'_def sp)
  have sub: "fst ` set splits \<subseteq> fst ` set splits'"
    by (auto simp: splits'_def sp)
  have unf: "split_loop splits n =
               (if int (length splits') \<noteq> n then split_loop splits' n else Some splits')"
    by (subst split_loop.simps) (simp add: sp splits'_def Let_def)
  show ?case
  proof (cases "int (length splits') = n")
    case True
    with unf sub show ?thesis by simp
  next
    case False
    with len less.prems(2) have lt: "int (length splits') < n" by simp
    have ne: "splits' \<noteq> []" by (simp add: splits'_def)
    have "nat n - length splits' < nat n - length splits"
      using len lt by simp
    from less.hyps [OF this ne lt] obtain r where
      "split_loop splits' n = Some r" "int (length r) = n" "fst ` set splits' \<subseteq> fst ` set r"
      by blast
    with unf False sub show ?thesis by auto
  qed
qed

lemma assign_round_robin_returns:
  assumes "rId < length candidates"
  shows "\<exists>slices. assign_round_robin xs candidates rId = Some slices \<and>
           map Start slices = map fst xs \<and>
           (\<forall>i < length xs. Slice_Replicas (slices ! i) = [candidates ! ((rId + i) mod length candidates)])"
  using assms
proof (induction xs arbitrary: rId)
  case Nil
  then show ?case by simp
next
  case (Cons x xs)
  have "0 < length candidates"
    using Cons.prems by (cases candidates) simp_all
  then have "(rId + 1) mod length candidates < length candidates"
    by (rule mod_less_divisor)
  from Cons.IH [OF this] obtain slices where
    s: "assign_round_robin xs candidates ((rId + 1) mod length candidates) = Some slices"
       "map Start slices = map fst xs"
       "\<forall>i < length xs. Slice_Replicas (slices ! i)
           = [candidates ! (((rId + 1) mod length candidates + i) mod length candidates)]"
    by blast
  have "\<forall>i < length (x # xs).
          Slice_Replicas ((\<lparr>Start = fst x, Slice_Replicas = [candidates ! rId]\<rparr> # slices) ! i)
            = [candidates ! ((rId + i) mod length candidates)]"
  proof (intro allI impI)
    fix i assume i: "i < length (x # xs)"
    show "Slice_Replicas ((\<lparr>Start = fst x, Slice_Replicas = [candidates ! rId]\<rparr> # slices) ! i)
            = [candidates ! ((rId + i) mod length candidates)]"
    proof (cases i)
      case 0
      then show ?thesis using Cons.prems by simp
    next
      case (Suc j)
      with i have "j < length xs" by simp
      with s(3) have "Slice_Replicas (slices ! j)
           = [candidates ! (((rId + 1) mod length candidates + j) mod length candidates)]"
        by blast
      moreover have "((rId + 1) mod length candidates + j) mod length candidates
                       = (rId + Suc j) mod length candidates"
        by (simp add: mod_add_left_eq)
      ultimately show ?thesis using Suc by simp
    qed
  qed
  with s(1,2) Cons.prems show ?case by simp
qed

lemma sort_Nil_iff: "sort xs = [] \<longleftrightarrow> xs = []"
  by (metis length_sort length_0_conv)

lemma routingAlgo_sort: "routingAlgo a (sort candidates) = routingAlgo a candidates"
  by (simp add: routingAlgo_def sort_key_id_if_sorted)

lemma routingAlgo_many:
  assumes "2 \<le> length candidates"
  shows "\<exists>(splits :: (u64 \<times> u64) list) slices.
           int (length splits) = nextPowerOfTwo (int (length candidates)) \<and>
           minSliceKey \<in> fst ` set splits \<and>
           map Start slices = map fst (sort_key fst splits) \<and>
           (\<forall>i < length splits.
              Slice_Replicas (slices ! i) = [sort candidates ! (i mod length candidates)]) \<and>
           (\<forall>a. routingAlgo a candidates
                  = Some (a\<lparr>Version := Version a + 1, Slices := slices\<rparr>, sort candidates))"
proof -
  let ?n = "nextPowerOfTwo (int (length candidates))"
  have "int (length candidates) \<le> ?n"
    using assms by (intro nextPowerOfTwo_ge) simp
  with assms have "int (length [(minSliceKey, maxSliceKey)]) < ?n"
    by simp
  from split_loop_returns [OF _ this] obtain splits where
    sp: "split_loop [(minSliceKey, maxSliceKey)] ?n = Some splits" "int (length splits) = ?n"
        "fst ` set [(minSliceKey, maxSliceKey)] \<subseteq> fst ` set splits"
    by blast
  have "0 < length (sort candidates)"
    using assms by auto
  from assign_round_robin_returns [OF this, of "sort_key fst splits"] obtain slices where
    sl: "assign_round_robin (sort_key fst splits) (sort candidates) 0 = Some slices"
        "map Start slices = map fst (sort_key fst splits)"
        "\<forall>i < length (sort_key fst splits).
            Slice_Replicas (slices ! i) = [sort candidates ! ((0 + i) mod length (sort candidates))]"
    by blast
  have "\<forall>a. routingAlgo a candidates
              = Some (a\<lparr>Version := Version a + 1, Slices := slices\<rparr>, sort candidates)"
  proof -
    have "candidates \<noteq> []" using assms by auto
    with assms sp(1) sl(1) show ?thesis
      by (simp add: routingAlgo_def Let_def sort_Nil_iff)
  qed
  moreover have "minSliceKey \<in> fst ` set splits"
    using sp(3) by simp
  moreover have "\<forall>i < length splits.
      Slice_Replicas (slices ! i) = [sort candidates ! (i mod length candidates)]"
    using sl(3) by simp
  ultimately have c: "int (length splits) = nextPowerOfTwo (int (length candidates)) \<and>
           minSliceKey \<in> fst ` set splits \<and>
           map Start slices = map fst (sort_key fst splits) \<and>
           (\<forall>i < length splits.
              Slice_Replicas (slices ! i) = [sort candidates ! (i mod length candidates)]) \<and>
           (\<forall>a. routingAlgo a candidates
                  = Some (a\<lparr>Version := Version a + 1, Slices := slices\<rparr>, sort candidates))"
    using sp(2) sl(2) by simp
  show ?thesis
    by (rule exI [of _ splits], rule exI [of _ slices], rule c)
qed

lemma routingAlgo_form:
  "\<exists>slices. \<forall>a. routingAlgo a candidates
                    = Some (a\<lparr>Version := Version a + 1, Slices := slices\<rparr>, sort candidates)"
proof -
  consider "length candidates = 0" | "length candidates = 1" | "2 \<le> length candidates"
    by linarith
  then show ?thesis
  proof cases
    case 1
    then show ?thesis
      by (intro exI [of _ "[]"]) (simp add: routingAlgo_def)
  next
    case 2
    then have "candidates \<noteq> []" by auto
    with 2 show ?thesis
      by (intro exI [of _ "[\<lparr>Start = minSliceKey, Slice_Replicas = sort candidates\<rparr>]"])
         (simp add: routingAlgo_def Let_def sort_Nil_iff)
  next
    case 3
    from routingAlgo_many [OF this] show ?thesis by blast
  qed
qed

lemma slices_cover:
  assumes ne: "slices \<noteq> []"
    and srt: "sorted (map Start slices)"
    and zero: "Start (hd slices) = 0"
  shows "(\<Union>i < length slices. slice_keys slices i) = UNIV"
proof -
  have "\<exists>i < length slices. k \<in> slice_keys slices i" for k
  proof -
    let ?I = "{i. i < length slices \<and> Start (slices ! i) \<le> k}"
    have fin: "finite ?I" by simp
    have "0 \<in> ?I"
      using ne zero by (simp add: hd_conv_nth)
    then have nonempty: "?I \<noteq> {}" by blast
    define i where "i = Max ?I"
    have iI: "i \<in> ?I"
      unfolding i_def using fin nonempty by (rule Max_in)
    then have i: "i < length slices" "Start (slices ! i) \<le> k" by simp_all
    have "unat k < slice_end slices i"
    proof (cases "Suc i < length slices")
      case True
      have "\<not> Start (slices ! Suc i) \<le> k"
      proof
        assume "Start (slices ! Suc i) \<le> k"
        with True have "Suc i \<in> ?I" by simp
        with fin have "Suc i \<le> Max ?I" by (rule Max_ge)
        then show False by (simp add: i_def)
      qed
      then show ?thesis
        using True by (simp add: slice_end_def word_less_nat_alt not_le)
    next
      case False
      have "unat k < 2 ^ 64"
        using unsigned_less [of k] by simp
      with False show ?thesis by (simp add: slice_end_def)
    qed
    with i show ?thesis
      by (auto simp: slice_keys_def word_le_nat_alt)
  qed
  then show ?thesis by auto
qed

lemma slices_disjoint:
  assumes srt: "sorted (map Start slices)"
    and ij: "i < j" "j < length slices"
  shows "slice_keys slices i \<inter> slice_keys slices j = {}"
proof -
  have "Start (slices ! Suc i) \<le> Start (slices ! j)"
    using sorted_nth_mono [OF srt, of "Suc i" j] ij by simp
  then have "unat (Start (slices ! Suc i)) \<le> unat (Start (slices ! j))"
    by (simp add: word_le_nat_alt)
  moreover have "slice_end slices i = unat (Start (slices ! Suc i))"
    using ij by (simp add: slice_end_def)
  ultimately show ?thesis
    by (auto simp: slice_keys_def)
qed

section \<open>The slices cover the key space\<close>

text \<open>
  C2. For every non-empty list of candidates \<open>routingAlgo\<close> returns, and the slices of the
  assignment it returns are sorted by start key, the first one starts at key 0, and the
  key ranges of the slices (each from its start key to the start key of the next, the last
  to the end of the key space) are pairwise disjoint and together contain every 64-bit
  key.
\<close>

theorem routingAlgo_slices_cover:
  assumes "candidates \<noteq> []"
  shows "\<exists>slices.
           routingAlgo a candidates
             = Some (a\<lparr>Version := Version a + 1, Slices := slices\<rparr>, sort candidates) \<and>
           slices \<noteq> [] \<and>
           sorted (map Start slices) \<and>
           Start (hd slices) = 0 \<and>
           (\<Union>i < length slices. slice_keys slices i) = UNIV \<and>
           (\<forall>i j. i < j \<and> j < length slices \<longrightarrow> slice_keys slices i \<inter> slice_keys slices j = {})"
proof -
  have "\<exists>slices.
           routingAlgo a candidates
             = Some (a\<lparr>Version := Version a + 1, Slices := slices\<rparr>, sort candidates) \<and>
           slices \<noteq> [] \<and> sorted (map Start slices) \<and> Start (hd slices) = 0"
  proof (cases "length candidates = 1")
    case True
    then obtain x where "candidates = [x]"
      by (cases candidates) auto
    then show ?thesis
      by (intro exI [of _ "[\<lparr>Start = 0, Slice_Replicas = [x]\<rparr>]"])
         (simp add: routingAlgo_def Let_def minSliceKey_def)
  next
    case False
    moreover have "length candidates \<noteq> 0"
      using assms by simp
    ultimately have "2 \<le> length candidates"
      by linarith
    from routingAlgo_many [OF this] obtain splits :: "(u64 \<times> u64) list" and slices where
      h: "int (length splits) = nextPowerOfTwo (int (length candidates))"
         "minSliceKey \<in> fst ` set splits"
         "map Start slices = map fst (sort_key fst splits)"
         "\<forall>a. routingAlgo a candidates
                = Some (a\<lparr>Version := Version a + 1, Slices := slices\<rparr>, sort candidates)"
      by blast
    have srt: "sorted (map Start slices)"
      by (simp add: h(3))
    have "0 \<in> set (map Start slices)"
      using h(2) by (simp add: h(3) minSliceKey_def)
    then have ne: "slices \<noteq> []" by auto
    have "Start (hd slices) \<le> 0"
    proof -
      from \<open>0 \<in> set (map Start slices)\<close> obtain i where
        i: "i < length (map Start slices)" "map Start slices ! i = 0"
        by (auto simp: in_set_conv_nth)
      have "map Start slices ! 0 \<le> map Start slices ! i"
        using sorted_nth_mono [OF srt, of 0 i] i(1) by simp
      with i ne show ?thesis by (simp add: hd_conv_nth)
    qed
    then have "Start (hd slices) = 0" by simp
    with h(4) srt ne show ?thesis by blast
  qed
  then obtain slices where
    s: "routingAlgo a candidates
          = Some (a\<lparr>Version := Version a + 1, Slices := slices\<rparr>, sort candidates)"
       "slices \<noteq> []" "sorted (map Start slices)" "Start (hd slices) = 0"
    by blast
  have "(\<Union>i < length slices. slice_keys slices i) = UNIV"
    using s(2,3,4) by (rule slices_cover)
  moreover have "\<forall>i j. i < j \<and> j < length slices \<longrightarrow> slice_keys slices i \<inter> slice_keys slices j = {}"
    using slices_disjoint [OF s(3)] by blast
  ultimately show ?thesis using s by blast
qed

theorem routingAlgo_slices_cover_witness:
  "[''b'', ''a''] \<noteq> [] \<and>
   (\<exists>slices.
      routingAlgo \<lparr>App = ''app'', DeploymentId = ''d1'', Component = ''c'', Version = 7, Slices = []\<rparr>
          [''b'', ''a'']
        = Some (\<lparr>App = ''app'', DeploymentId = ''d1'', Component = ''c'', Version = 8,
                  Slices = slices\<rparr>, [''a'', ''b'']) \<and>
      slices \<noteq> [] \<and> sorted (map Start slices) \<and> Start (hd slices) = 0 \<and>
      (\<Union>i < length slices. slice_keys slices i) = UNIV)"
proof -
  have h: "[''b'', ''a''] \<noteq> []" by simp
  from routingAlgo_slices_cover [OF h,
      of "\<lparr>App = ''app'', DeploymentId = ''d1'', Component = ''c'', Version = 7, Slices = []\<rparr>"]
  obtain slices where
    "routingAlgo \<lparr>App = ''app'', DeploymentId = ''d1'', Component = ''c'', Version = 7, Slices = []\<rparr>
          [''b'', ''a'']
        = Some (\<lparr>App = ''app'', DeploymentId = ''d1'', Component = ''c'', Version = 7, Slices = []\<rparr>
                  \<lparr>Version := Version \<lparr>App = ''app'', DeploymentId = ''d1'', Component = ''c'', Version = 7, Slices = []\<rparr> + 1,
                    Slices := slices\<rparr>, sort [''b'', ''a''])"
    "slices \<noteq> []" "sorted (map Start slices)" "Start (hd slices) = 0"
    "(\<Union>i < length slices. slice_keys slices i) = UNIV"
    by blast
  then show ?thesis by simp
qed

section \<open>Determinism and the version\<close>

text \<open>
  C4. Two calls of \<open>routingAlgo\<close> whose candidates are the same up to order, on any two
  current assignments, return the same slices, replica by replica; each call returns the
  current assignment with its version incremented by one, also when the slices it
  computes are those the assignment has already (calling it on its own result changes the
  version only), and also for no candidates.
\<close>

theorem routingAlgo_deterministic:
  assumes "mset candidates1 = mset candidates2"
  shows "\<exists>slices.
           routingAlgo a1 candidates1
             = Some (a1\<lparr>Version := Version a1 + 1, Slices := slices\<rparr>, sort candidates1) \<and>
           routingAlgo a2 candidates2
             = Some (a2\<lparr>Version := Version a2 + 1, Slices := slices\<rparr>, sort candidates2) \<and>
           routingAlgo (a1\<lparr>Version := Version a1 + 1, Slices := slices\<rparr>) candidates2
             = Some (a1\<lparr>Version := Version a1 + 2, Slices := slices\<rparr>, sort candidates2)"
proof -
  have eq: "sort candidates1 = sort candidates2"
    using assms by (intro properties_for_sort) simp_all
  obtain slices where
    s: "\<forall>a. routingAlgo a candidates2
              = Some (a\<lparr>Version := Version a + 1, Slices := slices\<rparr>, sort candidates2)"
    using routingAlgo_form [of candidates2] by blast
  have "routingAlgo a candidates1 = routingAlgo a candidates2" for a
    using routingAlgo_sort [of a candidates1] routingAlgo_sort [of a candidates2] eq by simp
  with s have "routingAlgo a1 candidates1
             = Some (a1\<lparr>Version := Version a1 + 1, Slices := slices\<rparr>, sort candidates1)"
    by (simp add: eq)
  moreover have "routingAlgo (a1\<lparr>Version := Version a1 + 1, Slices := slices\<rparr>) candidates2
             = Some (a1\<lparr>Version := Version a1 + 2, Slices := slices\<rparr>, sort candidates2)"
    using s by simp
  ultimately show ?thesis using s by blast
qed

theorem routingAlgo_deterministic_witness:
  "mset [''b'', ''a''] = mset [''a'', ''b''] \<and>
   (\<exists>slices.
      routingAlgo \<lparr>App = ''app'', DeploymentId = ''d1'', Component = ''c'', Version = 7, Slices = []\<rparr>
          [''b'', ''a'']
        = Some (\<lparr>App = ''app'', DeploymentId = ''d1'', Component = ''c'', Version = 8,
                  Slices = slices\<rparr>, [''a'', ''b'']) \<and>
      routingAlgo \<lparr>App = ''app'', DeploymentId = ''d1'', Component = ''c'', Version = 3, Slices = []\<rparr>
          [''a'', ''b'']
        = Some (\<lparr>App = ''app'', DeploymentId = ''d1'', Component = ''c'', Version = 4,
                  Slices = slices\<rparr>, [''a'', ''b'']) \<and>
      routingAlgo \<lparr>App = ''app'', DeploymentId = ''d1'', Component = ''c'', Version = 8, Slices = slices\<rparr>
          [''a'', ''b'']
        = Some (\<lparr>App = ''app'', DeploymentId = ''d1'', Component = ''c'', Version = 9,
                  Slices = slices\<rparr>, [''a'', ''b'']))"
proof -
  have h: "mset [''b'', ''a''] = mset [''a'', ''b'']" by simp
  from routingAlgo_deterministic [OF h,
      of "\<lparr>App = ''app'', DeploymentId = ''d1'', Component = ''c'', Version = 7, Slices = []\<rparr>"
         "\<lparr>App = ''app'', DeploymentId = ''d1'', Component = ''c'', Version = 3, Slices = []\<rparr>"]
  show ?thesis using h by simp
qed

section \<open>The number of slices\<close>

text \<open>
  C5. The number of slices is a function of the number \<open>N\<close> of candidates: none for
  \<open>N = 0\<close> (the version is incremented all the same), one slice starting at key 0 that
  holds the candidate for \<open>N = 1\<close>, and \<open>nextPowerOfTwo N\<close> slices for \<open>N \<ge> 2\<close>, which is
  the least power of two that is at least \<open>N\<close>.
\<close>

theorem routingAlgo_slice_count:
  "\<exists>slices.
     routingAlgo a candidates
       = Some (a\<lparr>Version := Version a + 1, Slices := slices\<rparr>, sort candidates) \<and>
     (if length candidates = 0 then slices = []
      else if length candidates = 1
      then slices = [\<lparr>Start = 0, Slice_Replicas = candidates\<rparr>]
      else int (length slices) = nextPowerOfTwo (int (length candidates)) \<and>
           (\<exists>k. length slices = 2 ^ k \<and> length candidates \<le> 2 ^ k \<and>
                (\<forall>j. length candidates \<le> 2 ^ j \<longrightarrow> k \<le> j)))"
proof -
  consider "length candidates = 0" | "length candidates = 1" | "2 \<le> length candidates"
    by linarith
  then show ?thesis
  proof cases
    case 1
    then show ?thesis
      by (intro exI [of _ "[]"]) (simp add: routingAlgo_def)
  next
    case 2
    then obtain x where "candidates = [x]"
      by (cases candidates) auto
    then show ?thesis
      by (intro exI [of _ "[\<lparr>Start = 0, Slice_Replicas = [x]\<rparr>]"])
         (simp add: routingAlgo_def Let_def minSliceKey_def)
  next
    case 3
    from routingAlgo_many [OF this] obtain splits :: "(u64 \<times> u64) list" and slices where
      h: "int (length splits) = nextPowerOfTwo (int (length candidates))"
         "map Start slices = map fst (sort_key fst splits)"
         "\<forall>a. routingAlgo a candidates
                = Some (a\<lparr>Version := Version a + 1, Slices := slices\<rparr>, sort candidates)"
      by blast
    have "length slices = length (map Start slices)" by simp
    also have "\<dots> = length splits" by (simp add: h(2))
    finally have len: "int (length slices) = nextPowerOfTwo (int (length candidates))"
      using h(1) by simp
    from 3 have "1 \<le> int (length candidates)" by simp
    from nextPowerOfTwo_least [OF this] obtain k where
      k: "nextPowerOfTwo (int (length candidates)) = 2 ^ k" "int (length candidates) \<le> 2 ^ k"
         "\<forall>j. int (length candidates) \<le> 2 ^ j \<longrightarrow> k \<le> j"
      by blast
    have k1: "length slices = 2 ^ k"
      using len k(1) by (metis of_nat_eq_iff of_nat_numeral of_nat_power)
    have k2: "length candidates \<le> 2 ^ k"
      using k(2) by (metis of_nat_le_iff of_nat_numeral of_nat_power)
    have k3: "\<forall>j. length candidates \<le> 2 ^ j \<longrightarrow> k \<le> j"
    proof (intro allI impI)
      fix j assume "length candidates \<le> 2 ^ j"
      then have "int (length candidates) \<le> 2 ^ j"
        by (metis of_nat_le_iff of_nat_numeral of_nat_power)
      with k(3) show "k \<le> j" by blast
    qed
    from 3 h(3) len k1 k2 k3 show ?thesis by auto
  qed
qed

theorem routingAlgo_slice_count_witness:
  "\<exists>slices.
      routingAlgo \<lparr>App = ''app'', DeploymentId = ''d1'', Component = ''c'', Version = 7, Slices = []\<rparr>
          [''c'', ''a'', ''b'']
        = Some (\<lparr>App = ''app'', DeploymentId = ''d1'', Component = ''c'', Version = 8,
                  Slices = slices\<rparr>, [''a'', ''b'', ''c'']) \<and>
      length slices = 4 \<and> (3::nat) \<le> 2 ^ 2 \<and> \<not> (3::nat) \<le> 2 ^ 1"
  using routingAlgo_slice_count
     [of "\<lparr>App = ''app'', DeploymentId = ''d1'', Component = ''c'', Version = 7, Slices = []\<rparr>"
         "[''c'', ''a'', ''b'']"]
  by (auto simp: nextPowerOfTwo_3)

section \<open>The scenario with two candidates\<close>

text \<open>
  C6. For the candidates \<open>["b", "a"]\<close> the algorithm sorts them to \<open>["a", "b"]\<close> and returns
  exactly two slices: the first starts at key 0 and is owned by \<open>"a"\<close>, the second starts
  at key \<open>2^63\<close> and is owned by \<open>"b"\<close>. The version of the current assignment, whatever it
  is, is incremented.
\<close>

theorem routingAlgo_b_a:
  "routingAlgo a [''b'', ''a''] =
     Some (a\<lparr>Version := Version a + 1,
              Slices := [\<lparr>Start = 0, Slice_Replicas = [''a'']\<rparr>,
                         \<lparr>Start = 2 ^ 63, Slice_Replicas = [''b'']\<rparr>]\<rparr>,
           [''a'', ''b''])"
proof -
  have s: "sort [''b'', ''a''] = [''a'', ''b'']"
    by simp
  have n: "nextPowerOfTwo 2 = 2"
    by (simp add: nextPowerOfTwo_def)
  have l: "split_loop [(minSliceKey, maxSliceKey)] 2
             = Some [(minSliceKey, 2 ^ 63), (2 ^ 63, maxSliceKey)]"
    by (subst split_loop.simps) (simp add: midPoint_full)
  have o: "sort_key fst [(minSliceKey, 2 ^ 63 :: u64), (2 ^ 63, maxSliceKey)]
             = [(minSliceKey, 2 ^ 63), (2 ^ 63, maxSliceKey)]"
    by (simp add: minSliceKey_def)
  show ?thesis
    unfolding routingAlgo_def Let_def s
    by (simp add: n l o) (simp add: minSliceKey_def)
qed

section \<open>Reads of the versioned store\<close>

lemma Map_Read_empty_version [simp]: "Map_Read vm cancelled key 0 = Returned (vm key)"
  by (simp add: Map_Read_def)

lemma loadAppState_empty_version:
  "loadAppState m 0 =
     Returned
       (case fst (appState m appVersionStateKey) of
          None \<Rightarrow> \<lparr>State_App = dep_App_Name m, State_DeploymentId = dep_Id m,
                   SubmissionTime = clock m, Listeners = [], Groups = Map.empty\<rparr>
        | Some s \<Rightarrow> s,
        snd (appState m appVersionStateKey))"
  by (cases "appState m appVersionStateKey") (simp add: loadAppState_def)

section \<open>\<open>getRoutingInfo\<close>\<close>

text \<open>
  C10. \<open>getRoutingInfo\<close> never returns \<open>nil\<close>: when the read of the store returns the
  not-found indication (a \<open>nil\<close> value, no error) with a version, as it does for a routing
  key that was never written, the handler returns an empty \<open>RoutingInfo\<close> that carries
  that version.
\<close>

theorem getRoutingInfo_not_nil:
  "getRoutingInfo m req \<noteq> Returned None \<and>
   (\<forall>v. Map_Read (routingState m) (ctx_done m) (routingKey (GRI_Group req)) (GRI_Version req)
          = Returned (None, v) \<longrightarrow>
        getRoutingInfo m req
          = Returned (Some \<lparr>RI_Replicas = [], RI_Assignments = [], RI_Version = v\<rparr>))"
  by (auto simp: getRoutingInfo_def loadRoutingState_def empty_RoutingInfo_def
           split: outcome.splits option.splits prod.splits)

theorem getRoutingInfo_not_nil_witness:
  "Map_Read (routingState (RunManager ''app'' ''d1'' [''l1''])) False (routingKey ''g'') 0
     = Returned (None, 0) \<and>
   getRoutingInfo (RunManager ''app'' ''d1'' [''l1'']) \<lparr>GRI_Group = ''g'', GRI_Version = 0\<rparr>
     = Returned (Some \<lparr>RI_Replicas = [], RI_Assignments = [], RI_Version = 0\<rparr>)"
proof -
  have r: "Map_Read (routingState (RunManager ''app'' ''d1'' [''l1'']))
             (ctx_done (RunManager ''app'' ''d1'' [''l1'']))
             (routingKey (GRI_Group \<lparr>GRI_Group = ''g'', GRI_Version = 0\<rparr>))
             (GRI_Version \<lparr>GRI_Group = ''g'', GRI_Version = 0\<rparr>) = Returned (None, 0)"
    by (simp add: RunManager_def NewMap_def)
  from getRoutingInfo_not_nil [of "RunManager ''app'' ''d1'' [''l1'']"
        "\<lparr>GRI_Group = ''g'', GRI_Version = 0\<rparr>"] r
  show ?thesis by (simp add: RunManager_def NewMap_def)
qed

section \<open>\<open>exportListener\<close> when the bind fails\<close>

text \<open>
  C7. When no proxy exists for the listener name, so that \<open>exportListener\<close> binds a new
  listener: if the bind fails because the address is in use, the call returns a reply
  whose \<open>Error\<close> field is the text of the failure and no error; if it fails otherwise, the
  call returns an error. In both cases the map of proxies is unchanged.
\<close>

theorem exportListener_bind_failure:
  assumes "proxies m (Listener_Name (Listener req)) = None"
  shows "(\<exists>m'. exportListener m (AddrInUse err) req
                  = (m', Returned \<lparr>ProxyAddress = [], Error = err\<rparr>) \<and>
               proxies m' = proxies m) \<and>
         (\<exists>m'. exportListener m (ListenError err) req = (m', Failed (ProxyListen err)) \<and>
               proxies m' = proxies m)"
  using assms by (simp add: exportListener_def loadAppState_empty_version Let_def)

theorem exportListener_bind_failure_witness:
  "proxies (RunManager ''app'' ''d1'' [''l1''])
     (Listener_Name (Listener \<lparr>Listener = \<lparr>Listener_Name = ''web'', Listener_Addr = ''10.0.0.1:80''\<rparr>,
                               LocalAddress = '':8080''\<rparr>)) = None \<and>
   snd (exportListener (RunManager ''app'' ''d1'' [''l1'']) (AddrInUse ''address already in use'')
          \<lparr>Listener = \<lparr>Listener_Name = ''web'', Listener_Addr = ''10.0.0.1:80''\<rparr>,
           LocalAddress = '':8080''\<rparr>)
     = Returned \<lparr>ProxyAddress = [], Error = ''address already in use''\<rparr> \<and>
   snd (exportListener (RunManager ''app'' ''d1'' [''l1'']) (ListenError ''address already in use'')
          \<lparr>Listener = \<lparr>Listener_Name = ''web'', Listener_Addr = ''10.0.0.1:80''\<rparr>,
           LocalAddress = '':8080''\<rparr>)
     = Failed (ProxyListen ''address already in use'')"
proof -
  have h: "proxies (RunManager ''app'' ''d1'' [''l1''])
     (Listener_Name (Listener \<lparr>Listener = \<lparr>Listener_Name = ''web'', Listener_Addr = ''10.0.0.1:80''\<rparr>,
                               LocalAddress = '':8080''\<rparr>)) = None"
    by (simp add: RunManager_def)
  from exportListener_bind_failure [OF h, of "''address already in use''"] h
  show ?thesis by auto
qed

section \<open>\<open>startColocationGroup\<close> when a launch fails\<close>

lemma start_babysitters_all:
  assumes "\<forall>j < length locs. sb (locs ! j) grp (k + j) = None"
  shows "start_babysitters sb grp locs k calls
           = (calls @ map (\<lambda>j. (locs ! j, grp, k + j)) [0..<length locs], None)"
  using assms
proof (induction locs arbitrary: k calls)
  case Nil
  then show ?case by simp
next
  case (Cons loc locs)
  have hd: "sb loc grp k = None"
    using Cons.prems by (auto dest: spec [of _ 0])
  have tl: "\<forall>j < length locs. sb (locs ! j) grp (Suc k + j) = None"
    using Cons.prems by (auto dest: spec [of _ "Suc j" for j])
  have "map (\<lambda>j. ((loc # locs) ! j, grp, k + j)) [0..<length (loc # locs)]
          = (loc, grp, k) # map (\<lambda>j. (locs ! j, grp, Suc k + j)) [0..<length locs]"
    by (simp add: upt_conv_Cons map_Suc_upt [symmetric] del: upt_Suc)
  with Cons.IH [OF tl] hd show ?case by simp
qed

lemma start_babysitters_fails:
  assumes "i < length locs" "sb (locs ! i) grp (k + i) = Some err"
    and "\<forall>j < i. sb (locs ! j) grp (k + j) = None"
  shows "start_babysitters sb grp locs k calls
           = (calls @ map (\<lambda>j. (locs ! j, grp, k + j)) [0..<Suc i],
              Some (BabysitterStart grp (locs ! i) err))"
  using assms
proof (induction locs arbitrary: k calls i)
  case Nil
  then show ?case by simp
next
  case (Cons loc locs)
  show ?case
  proof (cases i)
    case 0
    with Cons.prems show ?thesis by simp
  next
    case (Suc i')
    have hd: "sb loc grp k = None"
      using Cons.prems(3) Suc by (auto dest: spec [of _ 0])
    have a: "i' < length locs" using Cons.prems(1) Suc by simp
    have b: "sb (locs ! i') grp (Suc k + i') = Some err"
      using Cons.prems(2) Suc by simp
    have c: "\<forall>j < i'. sb (locs ! j) grp (Suc k + j) = None"
      using Cons.prems(3) Suc by (auto dest: spec [of _ "Suc j" for j])
    have "map (\<lambda>j. ((loc # locs) ! j, grp, k + j)) [0..<Suc i]
          = (loc, grp, k) # map (\<lambda>j. (locs ! j, grp, Suc k + j)) [0..<Suc i']"
      unfolding Suc
      by (simp add: upt_conv_Cons map_Suc_upt [symmetric] del: upt_Suc)
    with Cons.IH [OF a b c] hd Suc show ?thesis by simp
  qed
qed

text \<open>
  C3, as the code has it. For a group that is not marked as started: when the launch
  fails at a location and has succeeded at the locations before it,
  \<open>startColocationGroup\<close> returns the error at once, having launched at the locations up
  to and including that one and at no location after it, and the group is not marked as
  started; when the launch succeeds at every location the group is marked as started.
  The group is marked as started only if the launch succeeded at every location.
\<close>

theorem startColocationGroup_partial_failure:
  assumes "started m grp = None"
  shows "(i < length (locations m) \<and> sb (locations m ! i) grp i = Some err \<and>
          (\<forall>j < i. sb (locations m ! j) grp j = None) \<longrightarrow>
            startColocationGroup m sb grp
              = (m\<lparr>launched := launched m @ map (\<lambda>j. (locations m ! j, grp, j)) [0..<Suc i]\<rparr>,
                 Failed (BabysitterStart grp (locations m ! i) err))) \<and>
         ((\<forall>j < length (locations m). sb (locations m ! j) grp j = None) \<longrightarrow>
            startColocationGroup m sb grp
              = (m\<lparr>launched := launched m @
                               map (\<lambda>j. (locations m ! j, grp, j)) [0..<length (locations m)],
                   started := (started m)(grp \<mapsto> True)\<rparr>,
                 Returned ())) \<and>
         (started (fst (startColocationGroup m sb grp)) grp \<noteq> None \<longrightarrow>
            (\<forall>j < length (locations m). sb (locations m ! j) grp j = None))"
proof -
  have fails: "startColocationGroup m sb grp
              = (m\<lparr>launched := launched m @ map (\<lambda>j. (locations m ! j, grp, j)) [0..<Suc i]\<rparr>,
                 Failed (BabysitterStart grp (locations m ! i) err))"
    if "i < length (locations m)" "sb (locations m ! i) grp i = Some err"
       "\<forall>j < i. sb (locations m ! j) grp j = None" for i err
  proof -
    have "start_babysitters sb grp (locations m) 0 (launched m)
            = (launched m @ map (\<lambda>j. (locations m ! j, grp, 0 + j)) [0..<Suc i],
               Some (BabysitterStart grp (locations m ! i) err))"
      using that by (intro start_babysitters_fails) simp_all
    with assms show ?thesis
      by (simp add: startColocationGroup_def)
  qed
  have all: "startColocationGroup m sb grp
              = (m\<lparr>launched := launched m @
                               map (\<lambda>j. (locations m ! j, grp, j)) [0..<length (locations m)],
                   started := (started m)(grp \<mapsto> True)\<rparr>,
                 Returned ())"
    if "\<forall>j < length (locations m). sb (locations m ! j) grp j = None"
  proof -
    have "start_babysitters sb grp (locations m) 0 (launched m)
            = (launched m @ map (\<lambda>j. (locations m ! j, grp, 0 + j)) [0..<length (locations m)],
               None)"
      using that by (intro start_babysitters_all) simp
    with assms show ?thesis
      by (simp add: startColocationGroup_def)
  qed
  have marked: "\<forall>j < length (locations m). sb (locations m ! j) grp j = None"
    if st: "started (fst (startColocationGroup m sb grp)) grp \<noteq> None"
  proof (rule ccontr)
    assume "\<not> (\<forall>j < length (locations m). sb (locations m ! j) grp j = None)"
    then have ex: "\<exists>j. j < length (locations m) \<and> sb (locations m ! j) grp j \<noteq> None"
      by blast
    define i where "i = (LEAST j. j < length (locations m) \<and> sb (locations m ! j) grp j \<noteq> None)"
    have i: "i < length (locations m) \<and> sb (locations m ! i) grp i \<noteq> None"
      unfolding i_def using ex by (rule LeastI_ex)
    then obtain e where e: "sb (locations m ! i) grp i = Some e" by auto
    have "\<forall>j < i. sb (locations m ! j) grp j = None"
    proof (intro allI impI)
      fix j assume ji: "j < i"
      then have "\<not> (j < length (locations m) \<and> sb (locations m ! j) grp j \<noteq> None)"
        unfolding i_def by (rule not_less_Least)
      moreover have "j < length (locations m)" using ji i by simp
      ultimately show "sb (locations m ! j) grp j = None" by simp
    qed
    from fails [OF _ e this] i have "started (fst (startColocationGroup m sb grp)) grp = started m grp"
      by simp
    with st assms show False by simp
  qed
  from fails all marked show ?thesis by blast
qed

theorem startColocationGroup_partial_failure_witness:
  "started (RunManager ''app'' ''d1'' [''l1'', ''l2'', ''l3'']) ''g'' = None \<and>
   startColocationGroup (RunManager ''app'' ''d1'' [''l1'', ''l2'', ''l3'']) (fail_at ''l2'') ''g''
     = ((RunManager ''app'' ''d1'' [''l1'', ''l2'', ''l3''])
          \<lparr>launched := [(''l1'', ''g'', 0), (''l2'', ''g'', 1)]\<rparr>,
        Failed (BabysitterStart ''g'' ''l2'' ''exit status 255''))"
proof -
  have h: "started (RunManager ''app'' ''d1'' [''l1'', ''l2'', ''l3'']) ''g'' = None"
    by (simp add: RunManager_def)
  have l: "locations (RunManager ''app'' ''d1'' [''l1'', ''l2'', ''l3'']) = [''l1'', ''l2'', ''l3'']"
          "launched (RunManager ''app'' ''d1'' [''l1'', ''l2'', ''l3'']) = []"
    by (simp_all add: RunManager_def)
  have u: "[0..<Suc 1] = [0, 1]" by (simp add: upt_rec)
  from startColocationGroup_partial_failure [OF h, of 1 "fail_at ''l2''" "''exit status 255''"]
  show ?thesis
    using h by (simp add: l fail_at_def u less_Suc_eq)
qed

text \<open>
  With the locations \<open>l1\<close> and \<open>l2\<close> and a launch that fails at \<open>l1\<close> only, the one launch
  made is the one at \<open>l1\<close>: the launch at \<open>l2\<close>, which would succeed, is not attempted.
\<close>

theorem startColocationGroup_stops_counterexample:
  "launched (fst (startColocationGroup (RunManager ''app'' ''d1'' [''l1'', ''l2''])
                    (fail_at ''l1'') ''g''))
     = [(''l1'', ''g'', 0)] \<and>
   fail_at ''l1'' ''l2'' ''g'' 1 = None"
  by (simp add: startColocationGroup_def RunManager_def fail_at_def)

section \<open>Recomputing the routing information\<close>

lemma loadRoutingState_empty_version:
  "loadRoutingState m grp 0
     = Returned (Some (stored_routing m grp), snd (routingState m (routingKey grp)))"
  by (cases "routingState m (routingKey grp)")
     (simp add: loadRoutingState_def stored_routing_def)

lemma updateRoutingInfo_eq:
  "updateRoutingInfo m g info =
     (if stored_routing m (Name g) = info then m
      else m\<lparr>routingState := Map_Update (routingState m) (routingKey (Name g)) info\<rparr>,
      Returned ())"
  by (simp add: updateRoutingInfo_def loadRoutingState_empty_version gproto_Equal_def)

lemma Map_Update_neq: "Map_Update vm key val \<noteq> vm"
proof
  assume "Map_Update vm key val = vm"
  then have "snd (Map_Update vm key val key) = snd (vm key)" by simp
  then show False by (simp add: Map_Update_def)
qed

lemma recompute_assignments_returns:
  "\<exists>as'. recompute_assignments as replicas
            = Some (as', if as = [] then replicas else sort replicas) \<and>
         map fst as' = map fst as \<and>
         (\<forall>i < length as. Version (snd (as' ! i)) = Version (snd (as ! i)) + 1)"
proof (induction as arbitrary: replicas)
  case Nil
  then show ?case by simp
next
  case (Cons ca as)
  obtain c a where ca: "ca = (c, a)" by (cases ca)
  obtain slices where
    r: "routingAlgo a replicas
          = Some (a\<lparr>Version := Version a + 1, Slices := slices\<rparr>, sort replicas)"
    using routingAlgo_form [of replicas] by blast
  from Cons.IH [of "sort replicas"] obtain as' where
    as': "recompute_assignments as (sort replicas)
            = Some (as', if as = [] then sort replicas else sort (sort replicas))"
         "map fst as' = map fst as"
         "\<forall>i < length as. Version (snd (as' ! i)) = Version (snd (as ! i)) + 1"
    by blast
  have s: "(if as = [] then sort replicas else sort (sort replicas)) = sort replicas"
    by (simp add: sort_key_id_if_sorted)
  let ?r = "(c, a\<lparr>Version := Version a + 1, Slices := slices\<rparr>) # as'"
  have 1: "recompute_assignments (ca # as) replicas = Some (?r, sort replicas)"
    using r as'(1) by (simp add: ca s)
  have 2: "map fst ?r = map fst (ca # as)"
    using as'(2) by (simp add: ca)
  have 3: "\<forall>i < length (ca # as). Version (snd (?r ! i)) = Version (snd ((ca # as) ! i)) + 1"
  proof (intro allI impI)
    fix i assume "i < length (ca # as)"
    then show "Version (snd (?r ! i)) = Version (snd ((ca # as) ! i)) + 1"
      using as'(3) by (cases i) (simp_all add: ca)
  qed
  show ?case
    by (rule exI [of _ ?r]) (use 1 2 3 in simp)
qed

lemma mayGenerateNewRoutingInfo_eq:
  "\<exists>as'. recompute_assignments (Assignments g) (Replicas g)
            = Some (as', if Assignments g = [] then Replicas g else sort (Replicas g)) \<and>
         map fst as' = map fst (Assignments g) \<and>
         (\<forall>i < length (Assignments g).
            Version (snd (as' ! i)) = Version (snd (Assignments g ! i)) + 1) \<and>
         mayGenerateNewRoutingInfo m order g =
           (if stored_routing m (Name g)
                 = \<lparr>RI_Replicas = sort (Replicas g),
                    RI_Assignments = List.map_filter (map_of as') order, RI_Version = 0\<rparr>
            then m
            else m\<lparr>routingState := Map_Update (routingState m) (routingKey (Name g))
                      \<lparr>RI_Replicas = sort (Replicas g),
                       RI_Assignments = List.map_filter (map_of as') order, RI_Version = 0\<rparr>\<rparr>,
            Returned (g\<lparr>Assignments := as', Replicas := sort (Replicas g)\<rparr>))"
proof -
  from recompute_assignments_returns [of "Assignments g" "Replicas g"] obtain as' where
    as': "recompute_assignments (Assignments g) (Replicas g)
            = Some (as', if Assignments g = [] then Replicas g else sort (Replicas g))"
         "map fst as' = map fst (Assignments g)"
         "\<forall>i < length (Assignments g).
            Version (snd (as' ! i)) = Version (snd (Assignments g ! i)) + 1"
    by blast
  have s: "sort (if Assignments g = [] then Replicas g else sort (Replicas g)) = sort (Replicas g)"
    by (simp add: sort_key_id_if_sorted)
  have "mayGenerateNewRoutingInfo m order g =
           (if stored_routing m (Name g)
                 = \<lparr>RI_Replicas = sort (Replicas g),
                    RI_Assignments = List.map_filter (map_of as') order, RI_Version = 0\<rparr>
            then m
            else m\<lparr>routingState := Map_Update (routingState m) (routingKey (Name g))
                      \<lparr>RI_Replicas = sort (Replicas g),
                       RI_Assignments = List.map_filter (map_of as') order, RI_Version = 0\<rparr>\<rparr>,
            Returned (g\<lparr>Assignments := as', Replicas := sort (Replicas g)\<rparr>))"
    unfolding mayGenerateNewRoutingInfo_def as'(1)
    by (simp add: Let_def updateRoutingInfo_eq s)
  with as' show ?thesis by blast
qed

lemma mayGenerateNewRoutingInfo_returns:
  "\<exists>rs as'. mayGenerateNewRoutingInfo m order g
               = (m\<lparr>routingState := rs\<rparr>,
                  Returned (g\<lparr>Assignments := as', Replicas := sort (Replicas g)\<rparr>))"
proof -
  from mayGenerateNewRoutingInfo_eq [of g m order] obtain as' where
    e: "mayGenerateNewRoutingInfo m order g =
           (if stored_routing m (Name g)
                 = \<lparr>RI_Replicas = sort (Replicas g),
                    RI_Assignments = List.map_filter (map_of as') order, RI_Version = 0\<rparr>
            then m
            else m\<lparr>routingState := Map_Update (routingState m) (routingKey (Name g))
                      \<lparr>RI_Replicas = sort (Replicas g),
                       RI_Assignments = List.map_filter (map_of as') order, RI_Version = 0\<rparr>\<rparr>,
            Returned (g\<lparr>Assignments := as', Replicas := sort (Replicas g)\<rparr>))"
    by blast
  show ?thesis
  proof (cases "stored_routing m (Name g)
                 = \<lparr>RI_Replicas = sort (Replicas g),
                    RI_Assignments = List.map_filter (map_of as') order, RI_Version = 0\<rparr>")
    case True
    with e have "mayGenerateNewRoutingInfo m order g
               = (m\<lparr>routingState := routingState m\<rparr>,
                  Returned (g\<lparr>Assignments := as', Replicas := sort (Replicas g)\<rparr>))"
      by simp
    then show ?thesis by blast
  next
    case False
    with e show ?thesis by auto
  qed
qed

lemma registerReplica_returns:
  "\<exists>m'. registerReplica m order req = (m', Returned ()) \<and>
        group_replicas m' (Group req)
          = sort (if Address req \<in> set (group_replicas m (Group req))
                  then group_replicas m (Group req)
                  else group_replicas m (Group req) @ [Address req]) \<and>
        group_pids m' (Group req)
          = (if Address req \<in> set (group_replicas m (Group req))
             then group_pids m (Group req)
             else group_pids m (Group req) @ [Pid req]) \<and>
        (\<forall>grp. grp \<noteq> Group req \<longrightarrow> group_state m' grp = group_state m grp)"
proof -
  define state where "state =
       (case fst (appState m appVersionStateKey) of
          None \<Rightarrow> \<lparr>State_App = dep_App_Name m, State_DeploymentId = dep_Id m,
                   SubmissionTime = clock m, Listeners = [], Groups = Map.empty\<rparr>
        | Some s \<Rightarrow> s)"
  define g where "g = findOrAddGroup state (Group req)"
  define g1 where "g1 = (if \<not> Address req \<in> set (Replicas g)
                     then g\<lparr>Replicas := Replicas g @ [Address req],
                            ReplicaPids := ReplicaPids g @ [Pid req]\<rparr>
                     else g)"
  have gs: "group_state m grp = Groups state grp" for grp
    by (simp add: group_state_def state_def split: option.splits)
  have gr: "Replicas g = group_replicas m (Group req)"
    by (simp add: g_def findOrAddGroup_def group_replicas_def gs split: option.splits)
  have gp: "ReplicaPids g = group_pids m (Group req)"
    by (simp add: g_def findOrAddGroup_def group_pids_def gs split: option.splits)
  obtain rs as' where
    mg: "mayGenerateNewRoutingInfo m order g1
           = (m\<lparr>routingState := rs\<rparr>,
              Returned (g1\<lparr>Assignments := as', Replicas := sort (Replicas g1)\<rparr>))"
    using mayGenerateNewRoutingInfo_returns [of m order g1] by blast
  let ?g2 = "g1\<lparr>Assignments := as', Replicas := sort (Replicas g1)\<rparr>"
  let ?m' = "m\<lparr>routingState := rs,
                appState := Map_Update (appState m) appVersionStateKey
                              (store_group state (Group req) ?g2)\<rparr>"
  have r: "registerReplica m order req = (?m', Returned ())"
    unfolding registerReplica_def loadAppState_empty_version outcome.case prod.case Let_def
      state_def [symmetric] g_def [symmetric] g1_def [symmetric] mg
    by simp
  have gs': "group_state ?m' grp = (if grp = Group req then Some ?g2 else group_state m grp)" for grp
    by (simp add: group_state_def Map_Update_def store_group_def gs [unfolded group_state_def])
  have R: "group_replicas ?m' (Group req) = sort (Replicas g1)"
    by (simp add: group_replicas_def gs')
  have P: "group_pids ?m' (Group req) = ReplicaPids g1"
    by (simp add: group_pids_def gs')
  have g1r: "Replicas g1 = (if Address req \<in> set (Replicas g) then Replicas g
                            else Replicas g @ [Address req])"
    by (simp add: g1_def)
  have g1p: "ReplicaPids g1 = (if Address req \<in> set (Replicas g) then ReplicaPids g
                               else ReplicaPids g @ [Pid req])"
    by (simp add: g1_def)
  have "sort (Replicas g1)
          = sort (if Address req \<in> set (group_replicas m (Group req))
                  then group_replicas m (Group req)
                  else group_replicas m (Group req) @ [Address req])"
    by (simp only: g1r gr)
  with R have "group_replicas ?m' (Group req)
          = sort (if Address req \<in> set (group_replicas m (Group req))
                  then group_replicas m (Group req)
                  else group_replicas m (Group req) @ [Address req])"
    by (rule trans)
  moreover have "ReplicaPids g1
          = (if Address req \<in> set (group_replicas m (Group req))
             then group_pids m (Group req)
             else group_pids m (Group req) @ [Pid req])"
    by (simp only: g1p gr gp)
  with P have "group_pids ?m' (Group req)
          = (if Address req \<in> set (group_replicas m (Group req))
             then group_pids m (Group req)
             else group_pids m (Group req) @ [Pid req])"
    by (rule trans)
  moreover have "\<forall>grp. grp \<noteq> Group req \<longrightarrow> group_state ?m' grp = group_state m grp"
    by (simp add: gs')
  ultimately show ?thesis using r by blast
qed

section \<open>\<open>registerReplica\<close> twice\<close>

text \<open>
  C8. Two calls of \<open>registerReplica\<close> with the same group and the same address, whatever
  the pids: both return without error, the address is in the replica list of the group
  after the first, and the second leaves the list, hence its length, as it is.
\<close>

theorem registerReplica_idempotent:
  "\<exists>m1 m2.
     registerReplica m order1 \<lparr>Group = grp, Address = a, Pid = pid1\<rparr> = (m1, Returned ()) \<and>
     registerReplica m1 order2 \<lparr>Group = grp, Address = a, Pid = pid2\<rparr> = (m2, Returned ()) \<and>
     a \<in> set (group_replicas m1 grp) \<and>
     group_replicas m2 grp = group_replicas m1 grp \<and>
     length (group_replicas m2 grp) = length (group_replicas m1 grp)"
proof -
  from registerReplica_returns [of m order1 "\<lparr>Group = grp, Address = a, Pid = pid1\<rparr>"]
  obtain m1 where
    1: "registerReplica m order1 \<lparr>Group = grp, Address = a, Pid = pid1\<rparr> = (m1, Returned ())"
       "group_replicas m1 grp
          = sort (if a \<in> set (group_replicas m grp) then group_replicas m grp
                  else group_replicas m grp @ [a])"
    by auto
  from registerReplica_returns [of m1 order2 "\<lparr>Group = grp, Address = a, Pid = pid2\<rparr>"]
  obtain m2 where
    2: "registerReplica m1 order2 \<lparr>Group = grp, Address = a, Pid = pid2\<rparr> = (m2, Returned ())"
       "group_replicas m2 grp
          = sort (if a \<in> set (group_replicas m1 grp) then group_replicas m1 grp
                  else group_replicas m1 grp @ [a])"
    by auto
  have in1: "a \<in> set (group_replicas m1 grp)"
    by (simp add: 1(2))
  have srt: "sorted (group_replicas m1 grp)"
    by (simp add: 1(2))
  have "group_replicas m2 grp = group_replicas m1 grp"
    using 2(2) in1 srt by (simp add: sort_key_id_if_sorted)
  with 1(1) 2(1) in1 show ?thesis by auto
qed

section \<open>Replicas and pids\<close>

lemma startColocationGroup_appState [simp]:
  "appState (fst (startColocationGroup m sb grp)) = appState m"
  by (simp add: startColocationGroup_def split: prod.splits option.splits)

lemma group_state_cong:
  "appState m' = appState m \<Longrightarrow> group_state m' = group_state m"
  by (rule ext) (simp add: group_state_def)

lemma startComponent_groups:
  "group_replicas (fst (startComponent m order sb req)) grp
     = (if grp = ColocationGroup req then sort (group_replicas m grp) else group_replicas m grp) \<and>
   group_pids (fst (startComponent m order sb req)) grp = group_pids m grp"
proof -
  define state where "state =
       (case fst (appState m appVersionStateKey) of
          None \<Rightarrow> \<lparr>State_App = dep_App_Name m, State_DeploymentId = dep_Id m,
                   SubmissionTime = clock m, Listeners = [], Groups = Map.empty\<rparr>
        | Some s \<Rightarrow> s)"
  define g where "g = findOrAddGroup state (ColocationGroup req)"
  define g1 where "g1 = g\<lparr>Components := (Components g)(CTS_Component req \<mapsto> IsRouted req)\<rparr>"
  define g2 where "g2 = (if IsRouted req \<and> map_of (Assignments g1) (CTS_Component req) = None
                     then g1\<lparr>Assignments := Assignments g1 @
                             [(CTS_Component req,
                               \<lparr>App = dep_App_Name m, DeploymentId = dep_Id m,
                                Component = CTS_Component req, Version = 0, Slices = []\<rparr>)]\<rparr>
                     else g1)"
  have gs: "group_state m grp = Groups state grp" for grp
    by (simp add: group_state_def state_def split: option.splits)
  have gr: "Replicas g2 = group_replicas m (ColocationGroup req)"
    by (simp add: g2_def g1_def g_def findOrAddGroup_def group_replicas_def gs split: option.splits)
  have gp: "ReplicaPids g2 = group_pids m (ColocationGroup req)"
    by (simp add: g2_def g1_def g_def findOrAddGroup_def group_pids_def gs split: option.splits)
  obtain rs as' where
    mg: "mayGenerateNewRoutingInfo m order g2
           = (m\<lparr>routingState := rs\<rparr>,
              Returned (g2\<lparr>Assignments := as', Replicas := sort (Replicas g2)\<rparr>))"
    using mayGenerateNewRoutingInfo_returns [of m order g2] by blast
  let ?g3 = "g2\<lparr>Assignments := as', Replicas := sort (Replicas g2)\<rparr>"
  let ?m' = "m\<lparr>routingState := rs,
                appState := Map_Update (appState m) appVersionStateKey
                              (store_group state (ColocationGroup req) ?g3)\<rparr>"
  have r: "startComponent m order sb req = startColocationGroup ?m' sb (ColocationGroup req)"
    unfolding startComponent_def loadAppState_empty_version outcome.case prod.case Let_def
      state_def [symmetric] g_def [symmetric] g1_def [symmetric] g2_def [symmetric] mg
    by simp
  have gs': "group_state ?m' grp
               = (if grp = ColocationGroup req then Some ?g3 else group_state m grp)" for grp
    by (simp add: group_state_def Map_Update_def store_group_def gs [unfolded group_state_def])
  have e: "group_state (fst (startComponent m order sb req)) = group_state ?m'"
    unfolding r by (rule group_state_cong) simp
  have R: "group_replicas (fst (startComponent m order sb req)) grp
             = (if grp = ColocationGroup req then sort (Replicas g2) else group_replicas m grp)"
    by (simp add: group_replicas_def e gs')
  have P: "group_pids (fst (startComponent m order sb req)) grp
             = (if grp = ColocationGroup req then ReplicaPids g2 else group_pids m grp)"
    by (simp add: group_pids_def e gs')
  from R P show ?thesis
    by (simp add: gr gp)
qed

lemma exportListener_groups:
  "group_state (fst (exportListener m lis req)) = group_state m"
proof (rule ext)
  fix grp
  show "group_state (fst (exportListener m lis req)) grp = group_state m grp"
    by (simp add: exportListener_def loadAppState_empty_version Let_def group_state_def
          Map_Update_def split: option.splits listen_result.splits)
qed

lemma reachable_sorted_same_length:
  assumes "reachable m"
  shows "sorted (group_replicas m grp) \<and> length (group_replicas m grp) = length (group_pids m grp)"
  using assms
proof (induction arbitrary: grp rule: reachable.induct)
  case (start app_name dep_id locs)
  show ?case
    by (simp add: group_replicas_def group_pids_def group_state_def RunManager_def NewMap_def)
next
  case (register m order req)
  from registerReplica_returns [of m order req] obtain m' where
    r: "registerReplica m order req = (m', Returned ())"
       "group_replicas m' (Group req)
          = sort (if Address req \<in> set (group_replicas m (Group req))
                  then group_replicas m (Group req)
                  else group_replicas m (Group req) @ [Address req])"
       "group_pids m' (Group req)
          = (if Address req \<in> set (group_replicas m (Group req))
             then group_pids m (Group req)
             else group_pids m (Group req) @ [Pid req])"
       "\<forall>grp. grp \<noteq> Group req \<longrightarrow> group_state m' grp = group_state m grp"
    by blast
  show ?case
  proof (cases "grp = Group req")
    case True
    with r(1,2,3) register.IH [of "Group req"] show ?thesis by simp
  next
    case False
    with r(4) have "group_state m' grp = group_state m grp" by simp
    then have "group_replicas m' grp = group_replicas m grp" "group_pids m' grp = group_pids m grp"
      by (simp_all add: group_replicas_def group_pids_def)
    with r(1) register.IH [of grp] show ?thesis by simp
  qed
next
  case (component m order sb creq)
  with startComponent_groups [of m order sb creq grp] show ?case by simp
next
  case (colocation m sb grp')
  have "group_state (fst (startColocationGroup m sb grp')) = group_state m"
    by (rule group_state_cong) simp
  with colocation.IH [of grp] show ?case
    by (simp add: group_replicas_def group_pids_def)
next
  case (listener m lis lreq)
  with exportListener_groups [of m lis lreq] show ?case
    by (simp add: group_replicas_def group_pids_def)
next
  case (cancel m)
  have "group_state (m\<lparr>ctx_done := True\<rparr>) = group_state m"
    by (rule group_state_cong) simp
  with cancel.IH [of grp] show ?case
    by (simp add: group_replicas_def group_pids_def)
next
  case (tick m t)
  have "group_state (m\<lparr>clock := t\<rparr>) = group_state m"
    by (rule group_state_cong) simp
  with tick.IH [of grp] show ?case
    by (simp add: group_replicas_def group_pids_def)
qed

text \<open>
  C9, as the code has it. In every reachable state the list of replicas and the list of
  pids of every group have the same length, and \<open>registerReplica\<close> returns without error:
  for an address that the group has already it leaves both lists as they are, whatever
  the pid; for a new address it adds the address to the replicas, which it keeps sorted,
  and the pid at the end of the pids.
\<close>

theorem replicas_pids_same_length:
  assumes "reachable m"
  shows "(\<forall>grp. length (group_replicas m grp) = length (group_pids m grp)) \<and>
         (\<exists>m'. registerReplica m order req = (m', Returned ()) \<and>
               (if Address req \<in> set (group_replicas m (Group req))
                then group_replicas m' (Group req) = group_replicas m (Group req) \<and>
                     group_pids m' (Group req) = group_pids m (Group req)
                else mset (group_replicas m' (Group req))
                       = mset (group_replicas m (Group req) @ [Address req]) \<and>
                     group_pids m' (Group req) = group_pids m (Group req) @ [Pid req]))"
proof -
  from registerReplica_returns [of m order req] obtain m' where
    r: "registerReplica m order req = (m', Returned ())"
       "group_replicas m' (Group req)
          = sort (if Address req \<in> set (group_replicas m (Group req))
                  then group_replicas m (Group req)
                  else group_replicas m (Group req) @ [Address req])"
       "group_pids m' (Group req)
          = (if Address req \<in> set (group_replicas m (Group req))
             then group_pids m (Group req)
             else group_pids m (Group req) @ [Pid req])"
    by blast
  have srt: "sorted (group_replicas m (Group req))"
    using reachable_sorted_same_length [OF assms] by blast
  have "if Address req \<in> set (group_replicas m (Group req))
        then group_replicas m' (Group req) = group_replicas m (Group req) \<and>
             group_pids m' (Group req) = group_pids m (Group req)
        else mset (group_replicas m' (Group req))
               = mset (group_replicas m (Group req) @ [Address req]) \<and>
             group_pids m' (Group req) = group_pids m (Group req) @ [Pid req]"
    using r(2,3) srt by (simp add: sort_key_id_if_sorted)
  with r(1) reachable_sorted_same_length [OF assms] show ?thesis by blast
qed

lemma group_replicas_RunManager [simp]:
  "group_replicas (RunManager app_name dep_id locs) grp = []"
  "group_pids (RunManager app_name dep_id locs) grp = []"
  by (simp_all add: group_replicas_def group_pids_def group_state_def RunManager_def NewMap_def)

theorem replicas_pids_same_length_witness:
  "reachable (RunManager ''app'' ''d1'' []) \<and>
   group_pids (fst (registerReplica (RunManager ''app'' ''d1'' []) []
                      \<lparr>Group = ''g'', Address = ''b'', Pid = 1\<rparr>)) ''g'' = [1]"
proof -
  have h: "reachable (RunManager ''app'' ''d1'' [])" by (rule reachable.start)
  from replicas_pids_same_length [OF h, of "[]" "\<lparr>Group = ''g'', Address = ''b'', Pid = 1\<rparr>"]
  show ?thesis using h by auto
qed

text \<open>
  The two lists are not aligned by index: after \<open>b\<close> registered with pid 1 and \<open>a\<close> with
  pid 2, the replicas are sorted to \<open>[a, b]\<close> and the pids are \<open>[1, 2]\<close>, in the order of
  registration, so the pid beside \<open>a\<close> is the pid of \<open>b\<close>.
\<close>

theorem replicas_pids_misaligned_counterexample:
  "zip (group_replicas registered_b_a ''g'') (group_pids registered_b_a ''g'')
     = [(''a'', 1), (''b'', 2)]"
proof -
  from registerReplica_returns [of "RunManager ''app'' ''d1'' []" "[]"
        "\<lparr>Group = ''g'', Address = ''b'', Pid = 1\<rparr>"]
  obtain m1 where
    1: "registerReplica (RunManager ''app'' ''d1'' []) [] \<lparr>Group = ''g'', Address = ''b'', Pid = 1\<rparr>
          = (m1, Returned ())"
       "group_replicas m1 ''g'' = [''b'']" "group_pids m1 ''g'' = [1]"
    by auto
  from registerReplica_returns [of m1 "[]" "\<lparr>Group = ''g'', Address = ''a'', Pid = 2\<rparr>"]
  obtain m2 where
    2: "registerReplica m1 [] \<lparr>Group = ''g'', Address = ''a'', Pid = 2\<rparr> = (m2, Returned ())"
       "group_replicas m2 ''g'' = [''a'', ''b'']" "group_pids m2 ''g'' = [1, 2]"
    by (auto simp: 1)
  have "registered_b_a = m2"
    by (simp add: registered_b_a_def 1(1) 2(1))
  with 2 show ?thesis by simp
qed

section \<open>When the routing information is written\<close>

text \<open>
  C1, as the code has it. \<open>mayGenerateNewRoutingInfo\<close> returns, with the version of every
  assignment of the group incremented by one, and it writes the new routing information
  to the store exactly when that differs from the stored one (an empty one when none is
  stored); the comparison takes every field, the versions of the assignments included.
  When the two are equal the manager is unchanged.
\<close>

theorem mayGenerateNewRoutingInfo_persists:
  "\<exists>as' m'.
     mayGenerateNewRoutingInfo m order g
       = (m', Returned (g\<lparr>Assignments := as', Replicas := sort (Replicas g)\<rparr>)) \<and>
     map fst as' = map fst (Assignments g) \<and>
     (\<forall>i < length (Assignments g).
        Version (snd (as' ! i)) = Version (snd (Assignments g ! i)) + 1) \<and>
     (let info = \<lparr>RI_Replicas = sort (Replicas g),
                  RI_Assignments = List.map_filter (map_of as') order, RI_Version = 0\<rparr>
      in (if stored_routing m (Name g) = info then m' = m
          else m' = m\<lparr>routingState := Map_Update (routingState m) (routingKey (Name g)) info\<rparr>) \<and>
         (routingState m' = routingState m \<longleftrightarrow> stored_routing m (Name g) = info))"
proof -
  from mayGenerateNewRoutingInfo_eq [of g m order] obtain as' where
    a: "map fst as' = map fst (Assignments g)"
       "\<forall>i < length (Assignments g).
            Version (snd (as' ! i)) = Version (snd (Assignments g ! i)) + 1"
       "mayGenerateNewRoutingInfo m order g =
           (if stored_routing m (Name g)
                 = \<lparr>RI_Replicas = sort (Replicas g),
                    RI_Assignments = List.map_filter (map_of as') order, RI_Version = 0\<rparr>
            then m
            else m\<lparr>routingState := Map_Update (routingState m) (routingKey (Name g))
                      \<lparr>RI_Replicas = sort (Replicas g),
                       RI_Assignments = List.map_filter (map_of as') order, RI_Version = 0\<rparr>\<rparr>,
            Returned (g\<lparr>Assignments := as', Replicas := sort (Replicas g)\<rparr>))"
    by blast
  let ?info = "\<lparr>RI_Replicas = sort (Replicas g),
                 RI_Assignments = List.map_filter (map_of as') order, RI_Version = 0\<rparr>"
  let ?m' = "if stored_routing m (Name g) = ?info then m
             else m\<lparr>routingState := Map_Update (routingState m) (routingKey (Name g)) ?info\<rparr>"
  have 1: "mayGenerateNewRoutingInfo m order g
       = (?m', Returned (g\<lparr>Assignments := as', Replicas := sort (Replicas g)\<rparr>))"
    by (rule a(3))
  have 2: "if stored_routing m (Name g) = ?info then ?m' = m
           else ?m' = m\<lparr>routingState := Map_Update (routingState m) (routingKey (Name g)) ?info\<rparr>"
    by simp
  have 3: "routingState ?m' = routingState m \<longleftrightarrow> stored_routing m (Name g) = ?info"
    by (simp add: Map_Update_neq)
  show ?thesis
    apply (rule exI [of _ as'])
    apply (rule exI [of _ ?m'])
    unfolding Let_def
    using 1 a(1,2) 2 3 by blast
qed

theorem mayGenerateNewRoutingInfo_persists_witness:
  "mayGenerateNewRoutingInfo (RunManager ''app'' ''d1'' []) []
     \<lparr>Name = ''g'', Components = Map.empty, Replicas = [], ReplicaPids = [], Assignments = []\<rparr>
   = (RunManager ''app'' ''d1'' [],
      Returned \<lparr>Name = ''g'', Components = Map.empty, Replicas = [], ReplicaPids = [],
                Assignments = []\<rparr>)"
proof -
  have s: "stored_routing (RunManager ''app'' ''d1'' []) ''g''
             = \<lparr>RI_Replicas = [], RI_Assignments = [], RI_Version = 0\<rparr>"
    by (simp add: stored_routing_def RunManager_def NewMap_def empty_RoutingInfo_def)
  from mayGenerateNewRoutingInfo_persists [of "RunManager ''app'' ''d1'' []" "[]"
      "\<lparr>Name = ''g'', Components = Map.empty, Replicas = [], ReplicaPids = [], Assignments = []\<rparr>"]
  show ?thesis
    by (auto simp: s List.map_filter_simps Let_def)
qed

lemma routed_once_eval:
  "stored_routing routed_once ''g''
     = \<lparr>RI_Replicas = [''a''],
        RI_Assignments = [\<lparr>App = ''app'', DeploymentId = ''d1'', Component = ''c'', Version = 2,
                            Slices = [\<lparr>Start = 0, Slice_Replicas = [''a'']\<rparr>]\<rparr>],
        RI_Version = 0\<rparr> \<and>
   snd (routingState routed_once (routingKey ''g'')) = 2"
  by (simp add: routed_once_def startComponent_def registerReplica_def loadAppState_empty_version
        RunManager_def NewMap_def findOrAddGroup_def mayGenerateNewRoutingInfo_def
        routingAlgo_def updateRoutingInfo_eq stored_routing_def empty_RoutingInfo_def
        Map_Update_def store_group_def startColocationGroup_def Let_def
        List.map_filter_simps minSliceKey_def routingKey_def routingInfoKey_def
        appVersionStateKey_def)


lemma routed_twice_eval:
  "stored_routing routed_twice ''g''
     = \<lparr>RI_Replicas = [''a''],
        RI_Assignments = [\<lparr>App = ''app'', DeploymentId = ''d1'', Component = ''c'', Version = 3,
                            Slices = [\<lparr>Start = 0, Slice_Replicas = [''a'']\<rparr>]\<rparr>],
        RI_Version = 0\<rparr> \<and>
   snd (routingState routed_twice (routingKey ''g'')) = 3"
  by (simp add: routed_twice_def routed_once_def startComponent_def registerReplica_def
        loadAppState_empty_version
        RunManager_def NewMap_def findOrAddGroup_def mayGenerateNewRoutingInfo_def
        routingAlgo_def updateRoutingInfo_eq stored_routing_def empty_RoutingInfo_def
        Map_Update_def store_group_def startColocationGroup_def Let_def
        List.map_filter_simps minSliceKey_def routingKey_def routingInfoKey_def
        appVersionStateKey_def)

text \<open>
  When the replica \<open>a\<close> registers a second time, the replicas and the slices of the
  stored routing information are what they were, and the record is written again all
  the same: its version goes from 2 to 3.
\<close>

theorem routing_rewritten_counterexample:
  "RI_Replicas (stored_routing routed_twice ''g'') = RI_Replicas (stored_routing routed_once ''g'') \<and>
   map Slices (RI_Assignments (stored_routing routed_twice ''g''))
     = map Slices (RI_Assignments (stored_routing routed_once ''g'')) \<and>
   snd (routingState routed_once (routingKey ''g'')) = 2 \<and>
   snd (routingState routed_twice (routingKey ''g'')) = 3"
  using routed_once_eval routed_twice_eval by simp

end
